theory Spec2Isabelle
  imports Complex_Main "HOL-Library.Word" "HOL-Library.AList" "HOL-Library.Multiset"
begin

section \<open>JavaScript values\<close>

subsection \<open>Strings\<close>

text \<open>
  A JavaScript string is a sequence of 16-bit code units. Literals of the source that are
  plain ASCII are written with \<open>ascii\<close>.
\<close>

type_synonym jschar = "16 word"
type_synonym jsstring = "jschar list"

definition ascii :: "string \<Rightarrow> jsstring" where
  "ascii s = map of_char s"

subsection \<open>Numbers\<close>

text \<open>
  A JavaScript number is an IEEE 754 double: a finite number, one of the two infinities, or
  NaN. A finite double is kept as the rational number it stands for. The sign of zero is not
  tracked: it could only show in a division by zero, and every divisor of the program is the
  constant 100 or a sum that starts from the literal \<open>0\<close>, which is never the negative zero.

  An operation on doubles is the operation on the values, carried out exactly, followed by
  rounding to the nearest double. The exact operations come first; on two finite numbers
  they are those of the rationals.
\<close>

datatype jsnum = Num rat | PosInf | NegInf | NaN

instantiation jsnum :: "{comm_monoid_add, uminus, minus, times, inverse}"
begin

definition zero_jsnum :: jsnum where
  "zero_jsnum = Num 0"

fun plus_jsnum :: "jsnum \<Rightarrow> jsnum \<Rightarrow> jsnum" where
  "plus_jsnum (Num a) (Num b) = Num (a + b)"
| "plus_jsnum NaN y = NaN"
| "plus_jsnum x NaN = NaN"
| "plus_jsnum PosInf NegInf = NaN"
| "plus_jsnum NegInf PosInf = NaN"
| "plus_jsnum PosInf y = PosInf"
| "plus_jsnum x PosInf = PosInf"
| "plus_jsnum NegInf y = NegInf"
| "plus_jsnum x NegInf = NegInf"

fun uminus_jsnum :: "jsnum \<Rightarrow> jsnum" where
  "uminus_jsnum (Num a) = Num (- a)"
| "uminus_jsnum PosInf = NegInf"
| "uminus_jsnum NegInf = PosInf"
| "uminus_jsnum NaN = NaN"

definition minus_jsnum :: "jsnum \<Rightarrow> jsnum \<Rightarrow> jsnum" where
  "minus_jsnum x y = x + (- y)"

fun times_jsnum :: "jsnum \<Rightarrow> jsnum \<Rightarrow> jsnum" where
  "times_jsnum (Num a) (Num b) = Num (a * b)"
| "times_jsnum NaN y = NaN"
| "times_jsnum x NaN = NaN"
| "times_jsnum PosInf (Num b) = (if b = 0 then NaN else if 0 < b then PosInf else NegInf)"
| "times_jsnum NegInf (Num b) = (if b = 0 then NaN else if 0 < b then NegInf else PosInf)"
| "times_jsnum (Num a) PosInf = (if a = 0 then NaN else if 0 < a then PosInf else NegInf)"
| "times_jsnum (Num a) NegInf = (if a = 0 then NaN else if 0 < a then NegInf else PosInf)"
| "times_jsnum PosInf PosInf = PosInf"
| "times_jsnum NegInf NegInf = PosInf"
| "times_jsnum PosInf NegInf = NegInf"
| "times_jsnum NegInf PosInf = NegInf"

fun divide_jsnum :: "jsnum \<Rightarrow> jsnum \<Rightarrow> jsnum" where
  "divide_jsnum (Num a) (Num b) =
     (if b = 0 then (if a = 0 then NaN else if 0 < a then PosInf else NegInf)
      else Num (a / b))"
| "divide_jsnum NaN y = NaN"
| "divide_jsnum x NaN = NaN"
| "divide_jsnum (Num a) PosInf = Num 0"
| "divide_jsnum (Num a) NegInf = Num 0"
| "divide_jsnum PosInf (Num b) = (if 0 \<le> b then PosInf else NegInf)"
| "divide_jsnum NegInf (Num b) = (if 0 \<le> b then NegInf else PosInf)"
| "divide_jsnum PosInf PosInf = NaN"
| "divide_jsnum PosInf NegInf = NaN"
| "divide_jsnum NegInf PosInf = NaN"
| "divide_jsnum NegInf NegInf = NaN"

definition inverse_jsnum :: "jsnum \<Rightarrow> jsnum" where
  "inverse_jsnum x = divide (Num 1) x"

instance
proof
  fix a b c :: jsnum
  show "a + b + c = a + (b + c)"
    by (cases a; cases b; cases c; simp)
  show "a + b = b + a"
    by (cases a; cases b; simp)
  show "0 + a = a"
    by (cases a; simp add: zero_jsnum_def)
qed

end

subsection \<open>Rounding\<close>

text \<open>
  Rounding to the nearest double, ties to even (IEEE 754, \<open>roundTiesToEven\<close>). A positive
  double is \<open>m * 2 ^ e\<close> for integers \<open>m < 2 ^ 53\<close> and \<open>- 1074 \<le> e \<le> 971\<close>. For a
  rational \<open>a \<ge> 0\<close> the exponent is the least \<open>e\<close> of that range with \<open>a < 2 ^ 53 * 2 ^ e\<close>,
  or 971 when there is none: then \<open>a / 2 ^ e\<close> lies between \<open>2 ^ 52\<close> and \<open>2 ^ 53\<close>, or else
  \<open>e = - 1074\<close> (the subnormal range), or \<open>a\<close> is beyond the largest double. The nearest
  double is \<open>a / 2 ^ e\<close> rounded to an integer, times \<open>2 ^ e\<close>. A result of \<open>2 ^ 1024\<close> or more
  is an overflow and yields the infinity.
\<close>

definition round_half_even :: "rat \<Rightarrow> int" where
  "round_half_even x =
     (let f = \<lfloor>x\<rfloor>; d = x - of_int f
      in if d < 1 / 2 then f else if 1 / 2 < d then f + 1 else if even f then f else f + 1)"

function find_exponent :: "int \<Rightarrow> rat \<Rightarrow> int" where
  "find_exponent e a = (if 971 \<le> e \<or> a < 2 ^ 53 * 2 powi e then e else find_exponent (e + 1) a)"
  by pat_completeness auto
termination
  by (relation "measure (\<lambda>(e, a). nat (971 - e))") auto

definition exponent :: "rat \<Rightarrow> int" where
  "exponent a = find_exponent (- 1074) a"

definition nearest :: "rat \<Rightarrow> rat" where
  "nearest a = of_int (round_half_even (a / 2 powi exponent a)) * 2 powi exponent a"

definition double :: "jsnum \<Rightarrow> jsnum" where
  "double x =
     (case x of
        Num a \<Rightarrow>
          if 2 ^ 1024 \<le> nearest \<bar>a\<bar> then (if a < 0 then NegInf else PosInf)
          else Num (if a < 0 then - nearest (- a) else nearest a)
      | _ \<Rightarrow> x)"

text \<open>
  The functions of the program take the rounding as their first argument \<open>rnd\<close> and apply it
  to the exact result of every operation. The program as it runs is the instance at
  \<open>double\<close>. The instance at \<open>exact\<close>, which rounds nothing, is the program in the exact
  arithmetic that the specification refers to.
\<close>

definition exact :: "jsnum \<Rightarrow> jsnum" where
  "exact x = x"

text \<open>\<open>x || 0\<close> on a number: the falsy numbers are NaN and zero.\<close>

definition or_zero :: "jsnum \<Rightarrow> jsnum" where
  "or_zero x = (if x = NaN \<or> x = Num 0 then Num 0 else x)"

subsection \<open>parseFloat\<close>

text \<open>
  The built-in \<open>parseFloat\<close> (ECMAScript 19.2.4): leading white space is dropped, then the
  longest prefix that is a \<open>StrDecimalLiteral\<close> is read: a sign, then \<open>Infinity\<close> or digits
  with an optional fraction and an optional exponent. No such prefix gives NaN. The result
  is the mathematical value of that literal (\<open>parse_decimal\<close>), rounded.
\<close>

definition is_white :: "jschar \<Rightarrow> bool" where
  "is_white c \<longleftrightarrow>
     c \<in> {0x09, 0x0A, 0x0B, 0x0C, 0x0D, 0x20, 0xA0, 0x1680, 0x2028, 0x2029, 0x202F,
          0x205F, 0x3000, 0xFEFF} \<or> (0x2000 \<le> c \<and> c \<le> 0x200A)"

definition is_digit :: "jschar \<Rightarrow> bool" where
  "is_digit c \<longleftrightarrow> 0x30 \<le> c \<and> c \<le> 0x39"

definition digits_val :: "jsstring \<Rightarrow> nat" where
  "digits_val ds = foldl (\<lambda>n c. 10 * n + (unat c - 48)) 0 ds"

text \<open>The sign in front of a literal, and what follows it.\<close>

fun read_sign :: "jsstring \<Rightarrow> bool \<times> jsstring" where
  "read_sign [] = (False, [])"
| "read_sign (c # cs) =
     (if c = 0x2D then (True, cs) else if c = 0x2B then (False, cs) else (False, c # cs))"

text \<open>The digits after a decimal point, if there is a point, and what follows them.\<close>

fun read_fraction :: "jsstring \<Rightarrow> jsstring \<times> jsstring" where
  "read_fraction [] = ([], [])"
| "read_fraction (c # cs) =
     (if c = 0x2E then (takeWhile is_digit cs, dropWhile is_digit cs) else ([], c # cs))"

text \<open>
  The exponent part: \<open>e\<close> or \<open>E\<close>, a sign, and at least one digit. Anything else is not
  part of the literal and counts as exponent 0.
\<close>

fun read_exponent :: "jsstring \<Rightarrow> int" where
  "read_exponent [] = 0"
| "read_exponent (c # cs) =
     (if c = 0x65 \<or> c = 0x45 then
        (case read_sign cs of (neg, ds) \<Rightarrow>
           (if takeWhile is_digit ds = [] then 0
            else if neg then - int (digits_val (takeWhile is_digit ds))
            else int (digits_val (takeWhile is_digit ds))))
      else 0)"

definition scale10 :: "rat \<Rightarrow> int \<Rightarrow> rat" where
  "scale10 m e = (if 0 \<le> e then m * 10 ^ nat e else m / 10 ^ nat (- e))"

definition parse_decimal :: "jsstring \<Rightarrow> jsnum" where
  "parse_decimal s =
     (case read_sign (dropWhile is_white s) of (neg, u) \<Rightarrow>
        if take 8 u = ascii ''Infinity'' then (if neg then NegInf else PosInf)
        else
          let ip = takeWhile is_digit u;
              (fp, rest) = read_fraction (dropWhile is_digit u)
          in if ip = [] \<and> fp = [] then NaN
             else
               let m = rat_of_nat (digits_val ip) + rat_of_nat (digits_val fp) / 10 ^ length fp;
                   v = scale10 m (read_exponent rest)
               in Num (if neg then - v else v))"

definition parseFloat_with :: "(jsnum \<Rightarrow> jsnum) \<Rightarrow> jsstring \<Rightarrow> jsnum" where
  "parseFloat_with rnd s = rnd (parse_decimal s)"

definition parseFloat :: "jsstring \<Rightarrow> jsnum" where
  "parseFloat = parseFloat_with double"

section \<open>The data model (types.ts)\<close>

record LineItem =
  name :: jsstring
  price :: rat
  category :: jsstring
  taxable :: bool

record CategoryTotal =
  subtotal :: jsnum
  discount :: jsnum
  tax :: jsnum
  total' :: jsnum

text \<open>
  \<open>CategoryTotals\<close> is an object used as a dictionary. The model keeps its own properties
  as an association list in insertion order.
\<close>

type_synonym CategoryTotals = "(jsstring \<times> CategoryTotal) list"

datatype DiscountType = Percentage | Amount

section \<open>The aggregation engine: computeTotals\<close>

text \<open>
  \<open>totals\<close> starts as the object literal \<open>{}\<close>, whose prototype is \<open>Object.prototype\<close>. A read
  \<open>totals[key]\<close> therefore finds an own property, or else a member that every object
  inherits, or else \<open>undefined\<close>. These are the names \<open>Object.prototype\<close> has in a browser;
  each of them is a function or an object, hence truthy.
\<close>

definition Object_prototype_keys :: "jsstring list" where
  "Object_prototype_keys = map ascii
     [''constructor'', ''hasOwnProperty'', ''isPrototypeOf'', ''propertyIsEnumerable'',
      ''toLocaleString'', ''toString'', ''valueOf'', ''__proto__'', ''__defineGetter__'',
      ''__defineSetter__'', ''__lookupGetter__'', ''__lookupSetter__'']"

datatype 'a property = Own 'a | Inherited | Undefined

definition get_property :: "(jsstring \<times> 'a) list \<Rightarrow> jsstring \<Rightarrow> 'a property" where
  "get_property obj key =
     (case map_of obj key of
        Some v \<Rightarrow> Own v
      | None \<Rightarrow> if key \<in> set Object_prototype_keys then Inherited else Undefined)"

text \<open>
  The body of the first loop, \<open>items.forEach\<close>:
  \<^verbatim>\<open>if (!totals[item.category]) totals[item.category] = {subtotal: 0, discount: 0, tax: 0, total: 0};\<close>
  \<^verbatim>\<open>totals[item.category].subtotal += item.price;\<close>
  When the read finds an inherited member, no property is created and the \<open>+=\<close> writes a
  \<open>subtotal\<close> property onto that member, an object shared by the whole page: \<open>totals\<close>
  itself stays as it is.
\<close>

definition add_item :: "(jsnum \<Rightarrow> jsnum) \<Rightarrow> CategoryTotals \<Rightarrow> LineItem \<Rightarrow> CategoryTotals" where
  "add_item rnd totals item =
     (case get_property totals (category item) of
        Undefined \<Rightarrow>
          AList.update (category item)
            \<lparr>subtotal = rnd (Num 0 + Num (price item)), discount = Num 0, tax = Num 0,
               total' = Num 0\<rparr>
            totals
      | Own t \<Rightarrow>
          AList.update (category item) (t\<lparr>subtotal := rnd (subtotal t + Num (price item))\<rparr>)
            totals
      | Inherited \<Rightarrow> totals)"

definition subtotals :: "(jsnum \<Rightarrow> jsnum) \<Rightarrow> LineItem list \<Rightarrow> CategoryTotals" where
  "subtotals rnd items = foldl (add_item rnd) [] items"

text \<open>
  \<open>Object.keys\<close> and \<open>Object.values\<close> list the own properties of an object in the order of
  \<open>OrdinaryOwnPropertyKeys\<close> (ECMAScript 10.1.11): first the keys that are array indices (the
  decimal numerals below \<open>2 ^ 32 - 1\<close> without a leading zero), in ascending numeric order, then
  the other keys in the order in which they were created.
\<close>

definition array_index :: "jsstring \<Rightarrow> int option" where
  "array_index key =
     (let n = foldl (\<lambda>n c. 10 * n + (uint c - 48)) 0 key
      in if key \<noteq> [] \<and> list_all is_digit key \<and> (key = [0x30] \<or> hd key \<noteq> 0x30) \<and>
            n < 4294967295
         then Some n else None)"

definition own_properties :: "(jsstring \<times> 'a) list \<Rightarrow> (jsstring \<times> 'a) list" where
  "own_properties obj =
     sort_key (\<lambda>e. the (array_index (fst e))) (filter (\<lambda>e. array_index (fst e) \<noteq> None) obj)
     @ filter (\<lambda>e. array_index (fst e) = None) obj"

text \<open>\<^verbatim>\<open>Object.values(totals).reduce((sum, val) => sum + val.subtotal, 0)\<close>\<close>

definition totalSubtotal :: "(jsnum \<Rightarrow> jsnum) \<Rightarrow> CategoryTotals \<Rightarrow> jsnum" where
  "totalSubtotal rnd totals =
     foldl (\<lambda>sum val. rnd (sum + subtotal val)) (Num 0) (map snd (own_properties totals))"

text \<open>The body of the second loop, over \<open>Object.keys(totals)\<close>, in its three steps.\<close>

definition category_discount ::
  "(jsnum \<Rightarrow> jsnum) \<Rightarrow> DiscountType \<Rightarrow> jsnum \<Rightarrow> jsnum \<Rightarrow> jsnum \<Rightarrow> jsnum" where
  "category_discount rnd discountType dValue total_sub sub =
     (case discountType of
        Percentage \<Rightarrow> rnd (sub * rnd (dValue / Num 100))
      | Amount \<Rightarrow> rnd (dValue * rnd (sub / total_sub)))"

definition category_tax ::
  "(jsnum \<Rightarrow> jsnum) \<Rightarrow> LineItem list \<Rightarrow> jsstring \<Rightarrow> jsnum \<Rightarrow> jsnum \<Rightarrow> jsnum \<Rightarrow> jsnum" where
  "category_tax rnd items cat sub disc rate =
     foldl (\<lambda>sum item.
              let itemDiscount = rnd (rnd (Num (price item) / sub) * disc)
              in rnd (sum + rnd (rnd (Num (price item) - itemDiscount) * rate)))
       (Num 0)
       (filter (\<lambda>item. category item = cat \<and> taxable item) items)"

definition finish_category ::
  "(jsnum \<Rightarrow> jsnum) \<Rightarrow> LineItem list \<Rightarrow> DiscountType \<Rightarrow> jsnum \<Rightarrow> jsnum \<Rightarrow> jsnum \<Rightarrow>
   jsstring \<times> CategoryTotal \<Rightarrow> jsstring \<times> CategoryTotal" where
  "finish_category rnd items discountType dValue rate total_sub entry =
     (case entry of (cat, t) \<Rightarrow>
        let disc = category_discount rnd discountType dValue total_sub (subtotal t);
            afterDiscount = rnd (subtotal t - disc);
            tx = category_tax rnd items cat (subtotal t) disc rate
        in (cat, t\<lparr>discount := disc, tax := tx, total' := rnd (afterDiscount + tx)\<rparr>))"

text \<open>
  \<open>computeTotals\<close> reads the component's state (\<open>items\<close>, \<open>taxRate\<close>, \<open>discountType\<close>,
  \<open>discountValue\<close>); here they are its arguments. The result lists the properties of the
  object \<open>totals\<close> in the order of \<open>Object.keys\<close>.
\<close>

definition computeTotals_with ::
  "(jsnum \<Rightarrow> jsnum) \<Rightarrow> LineItem list \<Rightarrow> jsstring \<Rightarrow> DiscountType \<Rightarrow> jsstring \<Rightarrow> CategoryTotals"
  where
  "computeTotals_with rnd items taxRate discountType discountValue =
     (let rate = rnd (parseFloat_with rnd taxRate / Num 100);
          dValue = or_zero (parseFloat_with rnd discountValue);
          totals = subtotals rnd items
      in map (finish_category rnd items discountType dValue rate (totalSubtotal rnd totals))
           (own_properties totals))"

definition computeTotals ::
  "LineItem list \<Rightarrow> jsstring \<Rightarrow> DiscountType \<Rightarrow> jsstring \<Rightarrow> CategoryTotals" where
  "computeTotals = computeTotals_with double"
section \<open>Notions of the specification\<close>

text \<open>The items of one category, in entry order, and the sum of their prices.\<close>

definition category_items :: "LineItem list \<Rightarrow> jsstring \<Rightarrow> LineItem list" where
  "category_items items c = filter (\<lambda>i. category i = c) items"

definition category_sum :: "LineItem list \<Rightarrow> jsstring \<Rightarrow> rat" where
  "category_sum items c = sum_list (map price (category_items items c))"

text \<open>
  The sum of a list of numbers as \<open>reduce\<close> computes it: from the left, starting from \<open>0\<close>,
  every addition rounded.
\<close>

definition sum_left :: "(jsnum \<Rightarrow> jsnum) \<Rightarrow> jsnum list \<Rightarrow> jsnum" where
  "sum_left rnd xs = foldl (\<lambda>s x. rnd (s + x)) (Num 0) xs"

text \<open>
  A value is numeric when it is not NaN, and a non-negative number when it is finite and at
  least 0. A rational is a double when rounding leaves it as it is.
\<close>

definition is_double :: "rat \<Rightarrow> bool" where
  "is_double a \<longleftrightarrow> double (Num a) = Num a"

definition numeric :: "jsnum \<Rightarrow> bool" where
  "numeric x \<longleftrightarrow> x \<noteq> NaN"

definition nonneg :: "jsnum \<Rightarrow> bool" where
  "nonneg x \<longleftrightarrow> (case x of Num a \<Rightarrow> 0 \<le> a | _ \<Rightarrow> False)"

text \<open>What a sum of non-negative doubles can be: a non-negative double, or the infinity.\<close>

definition nonneg_double :: "jsnum \<Rightarrow> bool" where
  "nonneg_double x \<longleftrightarrow> (case x of Num a \<Rightarrow> 0 \<le> a \<and> is_double a | PosInf \<Rightarrow> True | _ \<Rightarrow> False)"

text \<open>
  Sample items: the two of the specification's first example, the blank row the page starts
  with (\<open>EMPTY_ITEM\<close> of the source), an item filed under a category named \<open>constructor\<close>,
  two items of one category whose prices have a sum that is a power of two, one item for
  each of two categories with the subtotals 80 and 20, two items of one category with the
  prices 7 and 18, and an item whose price is half of \<open>2 ^ 1024\<close>, the bound of the doubles.
\<close>

definition milk :: LineItem where
  "milk = \<lparr>name = ascii ''Milk'', price = 3, category = ascii ''Grocery'', taxable = True\<rparr>"

definition bread :: LineItem where
  "bread = \<lparr>name = ascii ''Bread'', price = 2, category = ascii ''Grocery'', taxable = False\<rparr>"

definition EMPTY_ITEM :: LineItem where
  "EMPTY_ITEM = \<lparr>name = [], price = 0, category = [], taxable = False\<rparr>"

definition gadget :: LineItem where
  "gadget = \<lparr>name = ascii ''Gadget'', price = 5, category = ascii ''constructor'', taxable = False\<rparr>"


definition tea :: LineItem where
  "tea = \<lparr>name = ascii ''Tea'', price = 3, category = ascii ''Drinks'', taxable = True\<rparr>"

definition cake :: LineItem where
  "cake = \<lparr>name = ascii ''Cake'', price = 1, category = ascii ''Drinks'', taxable = False\<rparr>"

definition sofa :: LineItem where
  "sofa = \<lparr>name = ascii ''Sofa'', price = 80, category = ascii ''A'', taxable = True\<rparr>"

definition lamp :: LineItem where
  "lamp = \<lparr>name = ascii ''Lamp'', price = 20, category = ascii ''B'', taxable = False\<rparr>"

definition pen :: LineItem where
  "pen = \<lparr>name = ascii ''Pen'', price = 7, category = ascii ''Office'', taxable = True\<rparr>"

definition desk :: LineItem where
  "desk = \<lparr>name = ascii ''Desk'', price = 18, category = ascii ''Office'', taxable = False\<rparr>"

definition ingot :: LineItem where
  "ingot = \<lparr>name = ascii ''Ingot'', price = 2 ^ 1023, category = ascii ''Gold'', taxable = True\<rparr>"
section \<open>The state codec (url-state.ts)\<close>

text \<open>The exceptions the built-ins of this file can throw.\<close>

datatype exn = InvalidCharacterError | SyntaxError

subsection \<open>btoa and atob\<close>

text \<open>
  \<open>btoa\<close> throws on a code unit above \<open>0xFF\<close>; otherwise it reads the code units as bytes and
  encodes them in base64, three bytes to four characters, with \<open>=\<close> padding.
\<close>

definition b64_char :: "nat \<Rightarrow> jschar" where
  "b64_char n =
     (if n < 26 then of_nat (65 + n)
      else if n < 52 then of_nat (97 + (n - 26))
      else if n < 62 then of_nat (48 + (n - 52))
      else if n = 62 then 0x2B else 0x2F)"

fun b64_encode :: "nat list \<Rightarrow> jsstring" where
  "b64_encode [] = []"
| "b64_encode [a] = [b64_char (a div 4), b64_char (a mod 4 * 16), 0x3D, 0x3D]"
| "b64_encode [a, b] =
     [b64_char (a div 4), b64_char (a mod 4 * 16 + b div 16), b64_char (b mod 16 * 4), 0x3D]"
| "b64_encode (a # b # c # bytes) =
     b64_char (a div 4) # b64_char (a mod 4 * 16 + b div 16) #
     b64_char (b mod 16 * 4 + c div 64) # b64_char (c mod 64) # b64_encode bytes"

definition btoa :: "jsstring \<Rightarrow> exn + jsstring" where
  "btoa s = (if list_ex (\<lambda>c. 0xFF < c) s then Inl InvalidCharacterError
             else Inr (b64_encode (map unat s)))"

text \<open>
  \<open>atob\<close> is the forgiving base64 decoder of the HTML standard: ASCII white space is removed;
  when the length is then a multiple of 4, one or two \<open>=\<close> at the end are removed; a length
  of 1 modulo 4 or a character outside the alphabet is an error; the characters are decoded
  six bits each, and the bits left over at the end are dropped.
\<close>

definition b64_val :: "jschar \<Rightarrow> nat option" where
  "b64_val c =
     (if 0x41 \<le> c \<and> c \<le> 0x5A then Some (unat c - 65)
      else if 0x61 \<le> c \<and> c \<le> 0x7A then Some (unat c - 97 + 26)
      else if 0x30 \<le> c \<and> c \<le> 0x39 then Some (unat c - 48 + 52)
      else if c = 0x2B then Some 62
      else if c = 0x2F then Some 63
      else None)"

fun b64_decode :: "nat list \<Rightarrow> nat list" where
  "b64_decode (p # q # r # s # vals) =
     (p * 4 + q div 16) # (q mod 16 * 16 + r div 4) # (r mod 4 * 64 + s) # b64_decode vals"
| "b64_decode [p, q, r] = [p * 4 + q div 16, q mod 16 * 16 + r div 4]"
| "b64_decode [p, q] = [p * 4 + q div 16]"
| "b64_decode vals = []"

definition is_ascii_white :: "jschar \<Rightarrow> bool" where
  "is_ascii_white c \<longleftrightarrow> c = 0x09 \<or> c = 0x0A \<or> c = 0x0C \<or> c = 0x0D \<or> c = 0x20"

definition strip_padding :: "jsstring \<Rightarrow> jsstring" where
  "strip_padding d =
     (if length d mod 4 = 0 \<and> d \<noteq> [] \<and> last d = 0x3D then
        (if butlast d \<noteq> [] \<and> last (butlast d) = 0x3D then butlast (butlast d) else butlast d)
      else d)"

definition atob :: "jsstring \<Rightarrow> exn + jsstring" where
  "atob s =
     (let d = strip_padding (filter (\<lambda>c. \<not> is_ascii_white c) s)
      in if length d mod 4 = 1 then Inl InvalidCharacterError
         else case those (map b64_val d) of
                None \<Rightarrow> Inl InvalidCharacterError
              | Some vals \<Rightarrow> Inr (map of_nat (b64_decode vals)))"

subsection \<open>JSON values\<close>

datatype json =
  JNull | JBool bool | JNum rat | JStr jsstring | JArr "json list" | JObj "(jsstring \<times> json) list"

subsection \<open>JSON.stringify\<close>

definition hex_digit :: "nat \<Rightarrow> jschar" where
  "hex_digit n = (if n < 10 then of_nat (48 + n) else of_nat (87 + n))"

definition unicode_escape :: "jschar \<Rightarrow> jsstring" where
  "unicode_escape c =
     [0x5C, 0x75, hex_digit (unat c div 4096), hex_digit (unat c div 256 mod 16),
      hex_digit (unat c div 16 mod 16), hex_digit (unat c mod 16)]"

definition escape_char :: "jschar \<Rightarrow> jsstring" where
  "escape_char c =
     (if c = 0x08 then [0x5C, 0x62]
      else if c = 0x09 then [0x5C, 0x74]
      else if c = 0x0A then [0x5C, 0x6E]
      else if c = 0x0C then [0x5C, 0x66]
      else if c = 0x0D then [0x5C, 0x72]
      else if c = 0x22 then [0x5C, 0x22]
      else if c = 0x5C then [0x5C, 0x5C]
      else if c < 0x20 then unicode_escape c
      else [c])"


text \<open>
  \<open>QuoteJSONString\<close>: a surrogate that is not half of a pair is written as a \<open>\u\<close> escape, a
  pair is copied.
\<close>

definition is_high_surrogate :: "jschar \<Rightarrow> bool" where
  "is_high_surrogate c \<longleftrightarrow> 0xD800 \<le> c \<and> c \<le> 0xDBFF"

definition is_low_surrogate :: "jschar \<Rightarrow> bool" where
  "is_low_surrogate c \<longleftrightarrow> 0xDC00 \<le> c \<and> c \<le> 0xDFFF"

fun quote_chars :: "jsstring \<Rightarrow> jsstring" where
  "quote_chars [] = []"
| "quote_chars [c] =
     (if is_high_surrogate c \<or> is_low_surrogate c then unicode_escape c else escape_char c)"
| "quote_chars (c # d # cs) =
     (if is_high_surrogate c \<and> is_low_surrogate d then c # d # quote_chars cs
      else if is_high_surrogate c \<or> is_low_surrogate c then unicode_escape c @ quote_chars (d # cs)
      else escape_char c @ quote_chars (d # cs))"

definition quote :: "jsstring \<Rightarrow> jsstring" where
  "quote s = 0x22 # quote_chars s @ [0x22]"

text \<open>
  \<open>JSON.stringify\<close> without indentation. How a number is written (\<open>Number::toString\<close>, the
  shortest decimal that reads back as the same double) is a matter of the floating-point
  format; it is the parameter \<open>num\<close>.
\<close>

fun join :: "jsstring list \<Rightarrow> jsstring" where
  "join [] = []"
| "join [x] = x"
| "join (x # y # ys) = x @ 0x2C # join (y # ys)"

fun JSON_stringify :: "(rat \<Rightarrow> jsstring) \<Rightarrow> json \<Rightarrow> jsstring" where
  "JSON_stringify num JNull = ascii ''null''"
| "JSON_stringify num (JBool b) = (if b then ascii ''true'' else ascii ''false'')"
| "JSON_stringify num (JNum x) = num x"
| "JSON_stringify num (JStr s) = quote s"
| "JSON_stringify num (JArr vs) = 0x5B # join (map (JSON_stringify num) vs) @ [0x5D]"
| "JSON_stringify num (JObj ms) =
     0x7B # join (map (\<lambda>(k, v). quote k @ 0x3A # JSON_stringify num v) ms) @ [0x7D]"

subsection \<open>JSON.parse\<close>

text \<open>
  A recursive-descent reader of the JSON grammar. Each function returns the value read and
  the rest of the text, or \<open>None\<close> where \<open>JSON.parse\<close> throws a SyntaxError.
\<close>

definition is_json_white :: "jschar \<Rightarrow> bool" where
  "is_json_white c \<longleftrightarrow> c = 0x20 \<or> c = 0x09 \<or> c = 0x0A \<or> c = 0x0D"

definition hex_val :: "jschar \<Rightarrow> nat option" where
  "hex_val c =
     (if 0x30 \<le> c \<and> c \<le> 0x39 then Some (unat c - 48)
      else if 0x61 \<le> c \<and> c \<le> 0x66 then Some (unat c - 87)
      else if 0x41 \<le> c \<and> c \<le> 0x46 then Some (unat c - 55)
      else None)"

text \<open>The character that a one-letter escape stands for, and the code unit of a \<open>\u\<close> escape.\<close>

definition unescape :: "jschar \<Rightarrow> jschar option" where
  "unescape e =
     (if e = 0x22 \<or> e = 0x5C \<or> e = 0x2F then Some e
      else if e = 0x62 then Some 0x08
      else if e = 0x66 then Some 0x0C
      else if e = 0x6E then Some 0x0A
      else if e = 0x72 then Some 0x0D
      else if e = 0x74 then Some 0x09
      else None)"

definition hex4 :: "jschar \<Rightarrow> jschar \<Rightarrow> jschar \<Rightarrow> jschar \<Rightarrow> jschar option" where
  "hex4 h1 h2 h3 h4 =
     (case (hex_val h1, hex_val h2, hex_val h3, hex_val h4) of
        (Some v1, Some v2, Some v3, Some v4) \<Rightarrow> Some (of_nat (v1 * 4096 + v2 * 256 + v3 * 16 + v4))
      | _ \<Rightarrow> None)"

text \<open>The characters of a string literal after its opening quote, up to the closing one.\<close>

fun parse_chars :: "jsstring \<Rightarrow> jsstring \<Rightarrow> (jsstring \<times> jsstring) option" where
  "parse_chars acc [] = None"
| "parse_chars acc (c # cs) =
     (if c = 0x22 then Some (acc, cs)
      else if c < 0x20 then None
      else if c = 0x5C then
        (case cs of
           [] \<Rightarrow> None
         | e # es \<Rightarrow>
             if e = 0x75 then
               (case es of
                  h1 # h2 # h3 # h4 # rest \<Rightarrow>
                    (case hex4 h1 h2 h3 h4 of
                       None \<Rightarrow> None
                     | Some u \<Rightarrow> parse_chars (acc @ [u]) rest)
                | _ \<Rightarrow> None)
             else
               (case unescape e of
                  None \<Rightarrow> None
                | Some u \<Rightarrow> parse_chars (acc @ [u]) es))
      else parse_chars (acc @ [c]) cs)"

text \<open>
  A number literal: an optional minus, \<open>0\<close> or digits that do not start with \<open>0\<close>, an optional
  fraction and an optional exponent, each with at least one digit. Its value is exact here.
\<close>

definition read_int :: "jsstring \<Rightarrow> (jsstring \<times> jsstring) option" where
  "read_int cs =
     (case cs of
        [] \<Rightarrow> None
      | c # r \<Rightarrow>
          if \<not> is_digit c then None
          else if c = 0x30 then Some ([c], r)
          else Some (takeWhile is_digit cs, dropWhile is_digit cs))"

definition read_frac :: "jsstring \<Rightarrow> (jsstring \<times> jsstring) option" where
  "read_frac cs =
     (case cs of
        [] \<Rightarrow> Some ([], [])
      | c # r \<Rightarrow>
          if c = 0x2E then
            (if takeWhile is_digit r = [] then None
             else Some (takeWhile is_digit r, dropWhile is_digit r))
          else Some ([], cs))"

definition read_exp :: "jsstring \<Rightarrow> (int \<times> jsstring) option" where
  "read_exp cs =
     (case cs of
        [] \<Rightarrow> Some (0, [])
      | c # r \<Rightarrow>
          if c = 0x65 \<or> c = 0x45 then
            (case read_sign r of (neg, ds) \<Rightarrow>
               if takeWhile is_digit ds = [] then None
               else Some ((if neg then - int (digits_val (takeWhile is_digit ds))
                           else int (digits_val (takeWhile is_digit ds))),
                          dropWhile is_digit ds))
          else Some (0, cs))"

definition parse_number :: "jsstring \<Rightarrow> (rat \<times> jsstring) option" where
  "parse_number cs =
     (let neg = (cs \<noteq> [] \<and> hd cs = 0x2D)
      in case read_int (if neg then tl cs else cs) of
           None \<Rightarrow> None
         | Some (ip, r1) \<Rightarrow>
             (case read_frac r1 of
                None \<Rightarrow> None
              | Some (fp, r2) \<Rightarrow>
                  (case read_exp r2 of
                     None \<Rightarrow> None
                   | Some (e, r3) \<Rightarrow>
                       let m = rat_of_nat (digits_val ip) + rat_of_nat (digits_val fp) / 10 ^ length fp;
                           v = scale10 m e
                       in Some (if neg then - v else v, r3))))"

text \<open>The colon between a key and its value, after white space.\<close>

definition skip_colon :: "jsstring \<Rightarrow> jsstring option" where
  "skip_colon cs =
     (case dropWhile is_json_white cs of
        [] \<Rightarrow> None
      | c # r \<Rightarrow> if c = 0x3A then Some r else None)"

text \<open>
  The value reader. \<open>parse_array\<close> and \<open>parse_object\<close> read on after the opening bracket,
  \<open>parse_elements\<close> and \<open>parse_member\<close> read the next element or member, and the two
  \<open>tail\<close> functions read the comma or the closing bracket after it. A key that occurs twice
  keeps its first position and its last value, as a property does. The comparisons of
  lengths always succeed, since a value takes at least one character; they make the
  recursion visibly terminate.
\<close>

function parse_value :: "jsstring \<Rightarrow> (json \<times> jsstring) option"
  and parse_array :: "jsstring \<Rightarrow> (json \<times> jsstring) option"
  and parse_elements :: "json list \<Rightarrow> jsstring \<Rightarrow> (json \<times> jsstring) option"
  and parse_array_tail :: "json list \<Rightarrow> jsstring \<Rightarrow> (json \<times> jsstring) option"
  and parse_object :: "jsstring \<Rightarrow> (json \<times> jsstring) option"
  and parse_member :: "(jsstring \<times> json) list \<Rightarrow> jsstring \<Rightarrow> (json \<times> jsstring) option"
  and parse_object_tail :: "(jsstring \<times> json) list \<Rightarrow> jsstring \<Rightarrow> (json \<times> jsstring) option"
where
  "parse_value [] = None"
| "parse_value (c # cs) =
     (if is_json_white c then parse_value cs
      else if c = 0x5B then parse_array cs
      else if c = 0x7B then parse_object cs
      else if c = 0x22 then map_option (\<lambda>(s, r). (JStr s, r)) (parse_chars [] cs)
      else if c = 0x2D \<or> is_digit c then map_option (\<lambda>(x, r). (JNum x, r)) (parse_number (c # cs))
      else if take 4 (c # cs) = ascii ''true'' then Some (JBool True, drop 4 (c # cs))
      else if take 5 (c # cs) = ascii ''false'' then Some (JBool False, drop 5 (c # cs))
      else if take 4 (c # cs) = ascii ''null'' then Some (JNull, drop 4 (c # cs))
      else None)"
| "parse_array [] = None"
| "parse_array (c # cs) =
     (if is_json_white c then parse_array cs
      else if c = 0x5D then Some (JArr [], cs)
      else parse_elements [] (c # cs))"
| "parse_elements acc cs =
     (case parse_value cs of
        None \<Rightarrow> None
      | Some (v, rest) \<Rightarrow>
          if length rest < length cs then parse_array_tail (acc @ [v]) rest else None)"
| "parse_array_tail acc [] = None"
| "parse_array_tail acc (c # cs) =
     (if is_json_white c then parse_array_tail acc cs
      else if c = 0x2C then parse_elements acc cs
      else if c = 0x5D then Some (JArr acc, cs)
      else None)"
| "parse_object [] = None"
| "parse_object (c # cs) =
     (if is_json_white c then parse_object cs
      else if c = 0x7D then Some (JObj [], cs)
      else parse_member [] (c # cs))"
| "parse_member acc [] = None"
| "parse_member acc (c # cs) =
     (if is_json_white c then parse_member acc cs
      else if c = 0x22 then
        (case parse_chars [] cs of
           None \<Rightarrow> None
         | Some (k, r) \<Rightarrow>
             (case skip_colon r of
                None \<Rightarrow> None
              | Some r' \<Rightarrow>
                  if length r' \<le> length cs then
                    (case parse_value r' of
                       None \<Rightarrow> None
                     | Some (v, rest) \<Rightarrow>
                         if length rest < length r' then parse_object_tail (AList.update k v acc) rest
                         else None)
                  else None))
      else None)"
| "parse_object_tail acc [] = None"
| "parse_object_tail acc (c # cs) =
     (if is_json_white c then parse_object_tail acc cs
      else if c = 0x2C then parse_member acc cs
      else if c = 0x7D then Some (JObj acc, cs)
      else None)"
  by pat_completeness auto
termination
  by (relation "inv_image (measure id <*lex*> measure id)
        (\<lambda>x. case x of
           Inl (Inl cs) \<Rightarrow> (length cs, 0)
         | Inl (Inr (Inl cs)) \<Rightarrow> (length cs, 3)
         | Inl (Inr (Inr (acc, cs))) \<Rightarrow> (length cs, 2)
         | Inr (Inl (Inl (acc, cs))) \<Rightarrow> (length cs, 0)
         | Inr (Inl (Inr cs)) \<Rightarrow> (length cs, 3)
         | Inr (Inr (Inl (acc, cs))) \<Rightarrow> (length cs, 0)
         | Inr (Inr (Inr (acc, cs))) \<Rightarrow> (length cs, 0))")
    auto

definition JSON_parse :: "jsstring \<Rightarrow> exn + json" where
  "JSON_parse text =
     (case parse_value text of
        None \<Rightarrow> Inl SyntaxError
      | Some (v, rest) \<Rightarrow> if list_all is_json_white rest then Inr v else Inl SyntaxError)"


subsection \<open>encodeState and decodeState\<close>

record ReceiptState =
  items :: "LineItem list"
  taxRate :: jsstring
  discountType :: DiscountType
  discountValue :: jsstring

text \<open>
  The state as the JavaScript object the page builds, its properties in the order in which
  the source creates them.
\<close>

definition item_json :: "LineItem \<Rightarrow> json" where
  "item_json i =
     JObj [(ascii ''name'', JStr (name i)), (ascii ''price'', JNum (price i)),
           (ascii ''category'', JStr (category i)), (ascii ''taxable'', JBool (taxable i))]"

definition state_json :: "ReceiptState \<Rightarrow> json" where
  "state_json s =
     JObj [(ascii ''items'', JArr (map item_json (items s))),
           (ascii ''taxRate'', JStr (taxRate s)),
           (ascii ''discountType'',
              JStr (case discountType s of Percentage \<Rightarrow> ascii ''percentage''
                                         | Amount \<Rightarrow> ascii ''amount'')),
           (ascii ''discountValue'', JStr (discountValue s))]"

text \<open>\<^verbatim>\<open>return btoa(JSON.stringify(state));\<close>\<close>

definition encodeState :: "(rat \<Rightarrow> jsstring) \<Rightarrow> ReceiptState \<Rightarrow> exn + jsstring" where
  "encodeState num state = btoa (JSON_stringify num (state_json state))"

text \<open>
  \<^verbatim>\<open>try { return JSON.parse(atob(encoded)); } catch (e) { console.error(...); return null; }\<close>
  The result is what \<open>JSON.parse\<close> returns, of whatever shape. The message on the console is
  left out.
\<close>

definition decodeState :: "jsstring \<Rightarrow> exn + json" where
  "decodeState encoded =
     (case (case atob encoded of Inl e \<Rightarrow> Inl e | Inr text \<Rightarrow> JSON_parse text) of
        Inl e \<Rightarrow> Inr JNull
      | Inr v \<Rightarrow> Inr v)"

text \<open>Reading a JSON value as a state: \<open>None\<close> when it has not the shape of one.\<close>

definition as_item :: "json \<Rightarrow> LineItem option" where
  "as_item v =
     (case v of
        JObj ms \<Rightarrow>
          (case (map_of ms (ascii ''name''), map_of ms (ascii ''price''),
                 map_of ms (ascii ''category''), map_of ms (ascii ''taxable'')) of
             (Some (JStr n), Some (JNum p), Some (JStr c), Some (JBool t)) \<Rightarrow>
               Some \<lparr>name = n, price = p, category = c, taxable = t\<rparr>
           | _ \<Rightarrow> None)
      | _ \<Rightarrow> None)"

definition as_discountType :: "jsstring \<Rightarrow> DiscountType option" where
  "as_discountType s =
     (if s = ascii ''percentage'' then Some Percentage
      else if s = ascii ''amount'' then Some Amount else None)"

definition as_state :: "json \<Rightarrow> ReceiptState option" where
  "as_state v =
     (case v of
        JObj ms \<Rightarrow>
          (case (map_of ms (ascii ''items''), map_of ms (ascii ''taxRate''),
                 map_of ms (ascii ''discountType''), map_of ms (ascii ''discountValue'')) of
             (Some (JArr vs), Some (JStr r), Some (JStr t), Some (JStr d)) \<Rightarrow>
               (case (those (map as_item vs), as_discountType t) of
                  (Some is, Some dt) \<Rightarrow>
                    Some \<lparr>items = is, taxRate = r, discountType = dt, discountValue = d\<rparr>
                | _ \<Rightarrow> None)
           | _ \<Rightarrow> None)
      | _ \<Rightarrow> None)"

text \<open>\<open>Number::toString\<close> on a natural number below \<open>10^21\<close>: its decimal digits.\<close>

fun nat_digits :: "nat \<Rightarrow> nat \<Rightarrow> jsstring" where
  "nat_digits 0 n = []"
| "nat_digits (Suc fuel) n =
     (if n < 10 then [of_nat (48 + n)] else nat_digits fuel (n div 10) @ [of_nat (48 + n mod 10)])"

definition nat_toString :: "rat \<Rightarrow> jsstring" where
  "nat_toString x = nat_digits 21 (nat \<lfloor>x\<rfloor>)"

section \<open>Sample states\<close>

text \<open>A state whose only item is named with the euro sign, code unit \<open>0x20AC\<close>.\<close>

definition euro_state :: ReceiptState where
  "euro_state =
     \<lparr>items = [\<lparr>name = [0x20AC], price = 5, category = ascii ''Food'', taxable = False\<rparr>],
      taxRate = ascii ''10'', discountType = Percentage, discountValue = []\<rparr>"

text \<open>A state with a Latin-1 letter in a name (\<open>0xE9\<close>), an empty category and empty strings.\<close>

definition cafe_state :: ReceiptState where
  "cafe_state =
     \<lparr>items = [\<lparr>name = ascii ''Caf'' @ [0xE9], price = 4, category = [], taxable = True\<rparr>],
      taxRate = [], discountType = Amount, discountValue = []\<rparr>"

section \<open>Notions for the proofs about the codec\<close>

text \<open>The six-bit values that \<open>b64_encode\<close> writes for a list of bytes, and the number of \<open>=\<close> it appends.\<close>

fun sextets :: "nat list \<Rightarrow> nat list" where
  "sextets [] = []"
| "sextets [a] = [a div 4, a mod 4 * 16]"
| "sextets [a, b] = [a div 4, a mod 4 * 16 + b div 16, b mod 16 * 4]"
| "sextets (a # b # c # bytes) =
     a div 4 # (a mod 4 * 16 + b div 16) # (b mod 16 * 4 + c div 64) # c mod 64 # sextets bytes"

fun padding :: "nat list \<Rightarrow> nat" where
  "padding [] = 0"
| "padding [a] = Suc (Suc 0)"
| "padding [a, b] = Suc 0"
| "padding (a # b # c # bytes) = padding bytes"

text \<open>A text that follows a value inside JSON text: nothing, a comma or a closing bracket.\<close>

definition delimited :: "jsstring \<Rightarrow> bool" where
  "delimited rest \<longleftrightarrow> (case rest of [] \<Rightarrow> True | c # cs \<Rightarrow> c = 0x2C \<or> c = 0x5D \<or> c = 0x7D)"

text \<open>What is assumed of the number writer \<open>num\<close> at a number \<open>x\<close>: it writes a literal that starts with a digit or a minus and that the reader reads as \<open>x\<close>.\<close>

definition writes_number :: "(rat \<Rightarrow> jsstring) \<Rightarrow> rat \<Rightarrow> bool" where
  "writes_number num x \<longleftrightarrow>
     (case num x of [] \<Rightarrow> False | c # cs \<Rightarrow> c = 0x2D \<or> is_digit c) \<and>
     (\<forall>rest. delimited rest \<longrightarrow> parse_number (num x @ rest) = Some (x, rest))"

text \<open>The values that \<open>JSON.parse\<close> reads back: their numbers are written as above and no object has a key twice.\<close>

fun printable :: "(rat \<Rightarrow> jsstring) \<Rightarrow> json \<Rightarrow> bool" where
  "printable num (JNum x) = writes_number num x"
| "printable num (JArr vs) = list_all (printable num) vs"
| "printable num (JObj ms) = (distinct (map fst ms) \<and> list_all (\<lambda>m. printable num (snd m)) ms)"
| "printable num v = True"

text \<open>Auxiliary notions for the proof that a written value is read back.\<close>

definition starts_value :: "jsstring \<Rightarrow> bool" where
  "starts_value s \<longleftrightarrow>
     (case s of [] \<Rightarrow> False | c # cs \<Rightarrow> \<not> is_json_white c \<and> c \<noteq> 0x5D \<and> c \<noteq> 0x7D)"

definition reads_back :: "(rat \<Rightarrow> jsstring) \<Rightarrow> json \<Rightarrow> bool" where
  "reads_back num v \<longleftrightarrow>
     starts_value (JSON_stringify num v) \<and>
     (\<forall>rest. delimited rest \<longrightarrow> parse_value (JSON_stringify num v @ rest) = Some (v, rest))"

text \<open>Strings and values all of whose code units are at most \<open>0xFF\<close>.\<close>

definition latin1 :: "jsstring \<Rightarrow> bool" where
  "latin1 s \<longleftrightarrow> list_all (\<lambda>c. c \<le> 0xFF) s"

fun latin1_value :: "(rat \<Rightarrow> jsstring) \<Rightarrow> json \<Rightarrow> bool" where
  "latin1_value num (JNum x) = latin1 (num x)"
| "latin1_value num (JStr s) = latin1 s"
| "latin1_value num (JArr vs) = list_all (latin1_value num) vs"
| "latin1_value num (JObj ms) = list_all (\<lambda>m. latin1 (fst m) \<and> latin1_value num (snd m)) ms"
| "latin1_value num v = True"

section \<open>Rounding: auxiliary facts\<close>

declare find_exponent.simps [simp del]

subsection \<open>Rounding to the nearest integer\<close>

lemma round_half_even_of_int [simp]: "round_half_even (of_int k) = k"
  by (simp add: round_half_even_def)

lemma round_half_even_cases:
  "round_half_even x = \<lfloor>x\<rfloor> \<or> round_half_even x = \<lfloor>x\<rfloor> + 1"
  by (simp add: round_half_even_def Let_def)

lemma round_half_even_mono:
  assumes "x \<le> y"
  shows "round_half_even x \<le> round_half_even y"
proof (cases "\<lfloor>x\<rfloor> = \<lfloor>y\<rfloor>")
  case True
  with assms show ?thesis
    by (auto simp: round_half_even_def Let_def)
next
  case False
  with assms have "\<lfloor>x\<rfloor> + 1 \<le> \<lfloor>y\<rfloor>"
    using floor_mono [of x y] by linarith
  moreover have "round_half_even x \<le> \<lfloor>x\<rfloor> + 1" "\<lfloor>y\<rfloor> \<le> round_half_even y"
    using round_half_even_cases [of x] round_half_even_cases [of y] by auto
  ultimately show ?thesis
    by linarith
qed

lemma round_half_even_le: "x \<le> of_int k \<Longrightarrow> round_half_even x \<le> k"
  using round_half_even_mono [of x "of_int k"] by simp

lemma round_half_even_ge: "of_int k \<le> x \<Longrightarrow> k \<le> round_half_even x"
  using round_half_even_mono [of "of_int k" x] by simp

lemma round_half_even_nearest:
  "of_int n - 1 / 2 < x \<Longrightarrow> x < of_int n + 1 / 2 \<Longrightarrow> round_half_even x = n"
  unfolding round_half_even_def Let_def by (auto; linarith)

subsection \<open>The exponent\<close>

lemma find_exponent_ge: "e \<le> find_exponent e a"
proof (induction e a rule: find_exponent.induct)
  case (1 e a)
  show ?case
    using 1 by (subst find_exponent.simps) auto
qed

lemma find_exponent_le: "e \<le> 971 \<Longrightarrow> find_exponent e a \<le> 971"
proof (induction e a rule: find_exponent.induct)
  case (1 e a)
  show ?case
    using 1 by (subst find_exponent.simps) auto
qed

lemma find_exponent_less:
  "find_exponent e a < 971 \<Longrightarrow> a < 2 ^ 53 * 2 powi find_exponent e a"
proof (induction e a rule: find_exponent.induct)
  case (1 e a)
  show ?case
  proof (cases "971 \<le> e \<or> a < 2 ^ 53 * 2 powi e")
    case True
    then have "find_exponent e a = e"
      by (simp add: find_exponent.simps)
    with True 1(2) show ?thesis
      by auto
  next
    case False
    then have "find_exponent e a = find_exponent (e + 1) a"
      by (subst find_exponent.simps) simp
    with 1 False show ?thesis
      by simp
  qed
qed

lemma find_exponent_least:
  "e \<le> k \<Longrightarrow> k < find_exponent e a \<Longrightarrow> 2 ^ 53 * 2 powi k \<le> a"
proof (induction e a rule: find_exponent.induct)
  case (1 e a)
  show ?case
  proof (cases "971 \<le> e \<or> a < 2 ^ 53 * 2 powi e")
    case True
    then have "find_exponent e a = e"
      by (simp add: find_exponent.simps)
    with 1(2,3) show ?thesis
      by simp
  next
    case False
    then have eq: "find_exponent e a = find_exponent (e + 1) a"
      by (subst find_exponent.simps) simp
    show ?thesis
    proof (cases "k = e")
      case True
      with False show ?thesis by simp
    next
      case ne: False
      with 1(2) have "e + 1 \<le> k" by simp
      with 1(1) [OF False] 1(3) eq show ?thesis
        by simp
    qed
  qed
qed

lemma exponent_range: "- 1074 \<le> exponent a" "exponent a \<le> 971"
  using find_exponent_ge [of "- 1074" a] find_exponent_le [of "- 1074" a]
  by (simp_all add: exponent_def)

lemma exponent_less: "exponent a < 971 \<Longrightarrow> a < 2 ^ 53 * 2 powi exponent a"
  unfolding exponent_def by (rule find_exponent_less)

lemma exponent_least: "- 1074 \<le> k \<Longrightarrow> k < exponent a \<Longrightarrow> 2 ^ 53 * 2 powi k \<le> a"
  unfolding exponent_def by (rule find_exponent_least)

lemma exponent_le: "- 1074 \<le> e \<Longrightarrow> a < 2 ^ 53 * 2 powi e \<Longrightarrow> exponent a \<le> e"
  using exponent_least [of e a] by force

lemma exponent_mono:
  assumes "a \<le> b"
  shows "exponent a \<le> exponent b"
proof (rule ccontr)
  assume "\<not> exponent a \<le> exponent b"
  then have less: "exponent b < exponent a"
    by simp
  with exponent_range(2) [of a] have "exponent b < 971"
    by simp
  then have "b < 2 ^ 53 * 2 powi exponent b"
    by (rule exponent_less)
  with assms have "a < 2 ^ 53 * 2 powi exponent b"
    by simp
  with exponent_range(1) [of b] have "exponent a \<le> exponent b"
    by (intro exponent_le)
  with less show False
    by simp
qed

lemma two_powi_pos [simp]: "0 < (2::rat) powi e"
  by simp

lemma two_powi_mono: "e \<le> e' \<Longrightarrow> (2::rat) powi e \<le> 2 powi e'"
  by (rule power_int_increasing) simp_all

lemma two_powi_Suc: "(2::rat) powi (e + 1) = 2 * 2 powi e"
  by (simp add: power_int_add)

lemma exponent_unique:
  assumes "- 1074 \<le> e" "e \<le> 971" "a < 2 ^ 53 * 2 powi e"
      and "e = - 1074 \<or> 2 ^ 52 * 2 powi e \<le> a"
  shows "exponent a = e"
proof (rule antisym)
  show "exponent a \<le> e"
    using assms(1,3) by (rule exponent_le)
  show "e \<le> exponent a"
  proof (rule ccontr)
    assume "\<not> e \<le> exponent a"
    then have less: "exponent a < e"
      by simp
    with exponent_range(1) [of a] assms(4) have low: "2 ^ 52 * 2 powi e \<le> a"
      by auto
    from less assms(2) have "a < 2 ^ 53 * 2 powi exponent a"
      by (intro exponent_less) simp
    also have "2 powi exponent a \<le> (2::rat) powi (e - 1)"
      using less by (intro two_powi_mono) simp
    also have "2 ^ 53 * (2::rat) powi (e - 1) = 2 ^ 52 * 2 powi e"
      using two_powi_Suc [of "e - 1"] by simp
    finally show False
      using low by simp
  qed
qed

subsection \<open>The nearest double\<close>

lemma nearest_nonneg: "0 \<le> a \<Longrightarrow> 0 \<le> nearest a"
  unfolding nearest_def by (intro mult_nonneg_nonneg) (simp_all add: round_half_even_ge)

lemma nearest_zero [simp]: "nearest 0 = 0"
  using round_half_even_of_int [of 0] by (simp add: nearest_def)

lemma nearest_exact:
  assumes a: "a = of_int m * 2 powi e" and m: "0 \<le> m" "m < 2 ^ 53" and e: "- 1074 \<le> e"
  shows "nearest a = a"
proof -
  have "of_int m < (2::rat) ^ 53"
    using m(2) by (metis of_int_less_iff of_int_numeral of_int_power)
  then have "a < 2 ^ 53 * 2 powi e"
    unfolding a by simp
  with e have le: "exponent a \<le> e"
    by (rule exponent_le)
  define E where "E = exponent a"
  define k where "k = nat (e - E)"
  have "(2::rat) powi e = 2 powi (E + int k)"
    using le by (simp add: k_def E_def)
  also have "\<dots> = 2 powi E * 2 ^ k"
    by (simp add: power_int_add)
  finally have split: "(2::rat) powi e = 2 powi E * 2 ^ k" .
  have a': "a = of_int (m * 2 ^ k) * 2 powi E"
    by (simp add: a split)
  then have "a / 2 powi E = of_int (m * 2 ^ k)"
    by simp
  then have "nearest a = of_int (m * 2 ^ k) * 2 powi E"
    by (simp only: nearest_def round_half_even_of_int flip: E_def)
  with a' show ?thesis
    by simp
qed

lemma nearest_mono:
  assumes "0 \<le> a" "a \<le> b"
  shows "nearest a \<le> nearest b"
proof (cases "exponent a = exponent b")
  case True
  have "a / 2 powi exponent b \<le> b / 2 powi exponent b"
    using assms(2) by (simp add: divide_right_mono)
  then have "round_half_even (a / 2 powi exponent b) \<le> round_half_even (b / 2 powi exponent b)"
    by (rule round_half_even_mono)
  then have "(of_int (round_half_even (a / 2 powi exponent b)) :: rat)
      \<le> of_int (round_half_even (b / 2 powi exponent b))"
    by simp
  then show ?thesis
    unfolding nearest_def True by (intro mult_right_mono) simp_all
next
  case False
  with exponent_mono [OF assms(2)] have less: "exponent a < exponent b"
    by simp
  with exponent_range(2) [of b] have "exponent a < 971"
    by simp
  then have "a < 2 ^ 53 * 2 powi exponent a"
    by (rule exponent_less)
  then have "a / 2 powi exponent a \<le> of_int (2 ^ 53)"
    by (simp add: pos_divide_le_eq)
  then have "round_half_even (a / 2 powi exponent a) \<le> 2 ^ 53"
    by (rule round_half_even_le)
  then have "(of_int (round_half_even (a / 2 powi exponent a)) :: rat) \<le> of_int (2 ^ 53)"
    by (simp only: of_int_le_iff)
  then have "nearest a \<le> 2 ^ 53 * 2 powi exponent a"
    unfolding nearest_def by (intro mult_right_mono) simp_all
  also have "\<dots> = 2 ^ 52 * 2 powi (exponent a + 1)"
    by (simp add: two_powi_Suc)
  also have "\<dots> \<le> 2 ^ 52 * 2 powi exponent b"
    using less by (intro mult_left_mono two_powi_mono) simp_all
  also have "\<dots> \<le> nearest b"
  proof -
    have "2 ^ 53 * 2 powi (exponent b - 1) \<le> b"
      using less exponent_range(1) [of a] by (intro exponent_least) simp_all
    moreover have "2 ^ 53 * (2::rat) powi (exponent b - 1) = 2 ^ 52 * 2 powi exponent b"
      using two_powi_Suc [of "exponent b - 1"] by simp
    ultimately have "of_int (2 ^ 52) \<le> b / 2 powi exponent b"
      by (simp add: pos_le_divide_eq)
    then have "2 ^ 52 \<le> round_half_even (b / 2 powi exponent b)"
      by (rule round_half_even_ge)
    then have "(of_int (2 ^ 52) :: rat) \<le> of_int (round_half_even (b / 2 powi exponent b))"
      by (simp only: of_int_le_iff)
    then show ?thesis
      unfolding nearest_def by (intro mult_right_mono) simp_all
  qed
  finally show ?thesis .
qed

lemma nearest_representable:
  assumes "0 \<le> a" "nearest a < 2 ^ 1024"
  shows "\<exists>m e. nearest a = of_int m * 2 powi e \<and> 0 \<le> m \<and> m < 2 ^ 53 \<and> - 1074 \<le> e"
proof -
  define m where "m = round_half_even (a / 2 powi exponent a)"
  have n: "nearest a = of_int m * 2 powi exponent a"
    by (simp add: nearest_def m_def)
  have m0: "0 \<le> m"
    unfolding m_def using assms(1) by (intro round_half_even_ge) simp
  show ?thesis
  proof (cases "m < 2 ^ 53")
    case True
    with n m0 exponent_range(1) [of a] show ?thesis
      by (intro exI [of _ m] exI [of _ "exponent a"]) simp
  next
    case False
    then have big: "2 ^ 53 \<le> m"
      by simp
    then have big': "(2::rat) ^ 53 \<le> of_int m"
      by (metis of_int_le_iff of_int_numeral of_int_power)
    have "exponent a < 971"
    proof (rule ccontr)
      assume "\<not> exponent a < 971"
      with exponent_range(2) [of a] have "exponent a = 971"
        by simp
      with n have "nearest a = of_int m * 2 ^ 971"
        by simp
      moreover have "(2::rat) ^ 53 * 2 ^ 971 \<le> of_int m * 2 ^ 971"
        using big' by (intro mult_right_mono) simp_all
      moreover have "(2::rat) ^ 53 * 2 ^ 971 = 2 ^ 1024"
        by (simp only: power_add [symmetric]) simp
      ultimately show False
        using assms(2) by linarith
    qed
    then have "a < 2 ^ 53 * 2 powi exponent a"
      by (rule exponent_less)
    then have "a / 2 powi exponent a \<le> of_int (2 ^ 53)"
      by (simp add: pos_divide_le_eq)
    then have "m \<le> 2 ^ 53"
      unfolding m_def by (rule round_half_even_le)
    with big have "m = 2 ^ 53"
      by simp
    then have "nearest a = of_int (2 ^ 52) * 2 powi (exponent a + 1)"
      unfolding n by (simp add: two_powi_Suc)
    moreover have "(0::int) \<le> 2 ^ 52" "(2::int) ^ 52 < 2 ^ 53"
      by simp_all
    moreover have "- 1074 \<le> exponent a + 1"
      using exponent_range(1) [of a] by simp
    ultimately show ?thesis
      by blast
  qed
qed

lemma nearest_idem:
  assumes "0 \<le> a" "nearest a < 2 ^ 1024"
  shows "nearest (nearest a) = nearest a"
  using nearest_representable [OF assms] nearest_exact by blast

subsection \<open>Rounding a number\<close>

lemma double_special [simp]:
  "double NaN = NaN" "double PosInf = PosInf" "double NegInf = NegInf" "double (Num 0) = Num 0"
  by (simp_all add: double_def)

lemma exact_apply: "exact x = x"
  by (simp add: exact_def)

lemma double_Num_cases:
  obtains (finite) y where "double (Num a) = Num y" "0 \<le> a \<longrightarrow> 0 \<le> y" "a \<le> 0 \<longrightarrow> y \<le> 0"
    | (pos) "double (Num a) = PosInf" "0 < a"
    | (neg) "double (Num a) = NegInf" "a < 0"
proof (cases "2 ^ 1024 \<le> nearest \<bar>a\<bar>")
  case True
  then have "a \<noteq> 0"
    by auto
  with True pos neg show thesis
    by (cases "a < 0") (simp_all add: double_def)
next
  case False
  show thesis
  proof (cases "a < 0")
    case True
    with False nearest_nonneg [of "- a"] finite [of "- nearest (- a)"] show thesis
      by (simp add: double_def)
  next
    case nonneg: False
    with False nearest_nonneg [of a] finite [of "nearest a"] show thesis
      by (simp add: double_def)
  qed
qed

lemma double_nonneg:
  assumes "0 \<le> a"
  shows "double (Num a) = PosInf \<or> (\<exists>y. double (Num a) = Num y \<and> 0 \<le> y)"
  using assms by (cases a rule: double_Num_cases) auto

lemma double_numeric: "x \<noteq> NaN \<Longrightarrow> double x \<noteq> NaN"
  by (cases x) (auto simp: double_def)

lemma is_double_iff:
  "is_double a \<longleftrightarrow> nearest \<bar>a\<bar> = \<bar>a\<bar> \<and> \<bar>a\<bar> < 2 ^ 1024"
proof (cases "a < 0")
  case True
  then show ?thesis
    by (auto simp: is_double_def double_def)
next
  case False
  then show ?thesis
    by (auto simp: is_double_def double_def)
qed

lemma double_idem [simp]: "double (double x) = double x"
proof (cases x)
  case (Num a)
  show ?thesis
  proof (cases "2 ^ 1024 \<le> nearest \<bar>a\<bar>")
    case True
    with Num show ?thesis
      by (simp add: double_def)
  next
    case False
    then have fin: "nearest \<bar>a\<bar> < 2 ^ 1024"
      by simp
    then have idem: "nearest (nearest \<bar>a\<bar>) = nearest \<bar>a\<bar>"
      by (intro nearest_idem) simp
    have n0: "0 \<le> nearest \<bar>a\<bar>"
      by (rule nearest_nonneg) simp
    have "\<bar>if a < 0 then - nearest \<bar>a\<bar> else nearest \<bar>a\<bar>\<bar> = nearest \<bar>a\<bar>"
      using n0 by simp
    then have "is_double (if a < 0 then - nearest \<bar>a\<bar> else nearest \<bar>a\<bar>)"
      unfolding is_double_iff using idem fin by (simp only:)
    moreover have "double (Num a) = Num (if a < 0 then - nearest \<bar>a\<bar> else nearest \<bar>a\<bar>)"
      using False by (simp add: double_def)
    ultimately show ?thesis
      using Num by (simp add: is_double_def)
  qed
qed (simp_all add: double_def)

lemma is_double_result: "double x = Num y \<Longrightarrow> is_double y"
  unfolding is_double_def by (metis double_idem)

lemma is_double_zero [simp]: "is_double 0"
  by (simp add: is_double_def)

lemma is_double_exact:
  assumes "a = of_int m * 2 powi e" "\<bar>m\<bar> < 2 ^ 53" "- 1074 \<le> e" "e \<le> 971"
  shows "is_double a"
proof -
  have abs: "\<bar>a\<bar> = of_int \<bar>m\<bar> * 2 powi e"
    by (simp add: assms(1) abs_mult)
  then have "nearest \<bar>a\<bar> = \<bar>a\<bar>"
    using assms(2,3) by (intro nearest_exact [of _ "\<bar>m\<bar>" e]) simp_all
  moreover have "\<bar>a\<bar> < 2 ^ 1024"
  proof -
    have "of_int \<bar>m\<bar> < (2::rat) ^ 53"
      using assms(2) by (metis of_int_less_iff of_int_numeral of_int_power)
    then have "\<bar>a\<bar> < 2 ^ 53 * 2 powi e"
      unfolding abs by simp
    also have "\<dots> \<le> 2 ^ 53 * 2 powi 971"
      using assms(4) by (intro mult_left_mono two_powi_mono) simp_all
    also have "\<dots> = 2 ^ 1024"
      by (simp only: power_int_numeral power_add [symmetric]) simp
    finally show ?thesis .
  qed
  ultimately show ?thesis
    by (simp add: is_double_iff)
qed

lemma is_double_of_int: "\<bar>m\<bar> < 2 ^ 53 \<Longrightarrow> is_double (of_int m)"
  by (rule is_double_exact [of _ m 0]) simp_all

lemma is_double_numeral [simp]: "numeral k < (2::int) ^ 53 \<Longrightarrow> is_double (numeral k)"
  using is_double_of_int [of "numeral k"] by simp

lemma is_double_one [simp]: "is_double 1"
  using is_double_of_int [of 1] by simp

lemma double_numeral [simp]:
  "numeral k < (2::int) ^ 53 \<Longrightarrow> double (Num (numeral k)) = Num (numeral k)"
  using is_double_numeral [of k] by (simp add: is_double_def)

lemma double_neg_numeral [simp]:
  "numeral k < (2::int) ^ 53 \<Longrightarrow> double (Num (- numeral k)) = Num (- numeral k)"
  using is_double_of_int [of "- numeral k"] by (simp add: is_double_def)

lemma double_one [simp]: "double (Num 1) = Num 1"
  using is_double_one by (simp add: is_double_def)

text \<open>Rounding is monotone: a number between two doubles is rounded to a number between them.\<close>

lemma double_bounded:
  assumes "\<bar>a\<bar> \<le> M" "is_double M"
  obtains y where "double (Num a) = Num y" "\<bar>y\<bar> \<le> M" "0 \<le> a \<longrightarrow> 0 \<le> y" "a \<le> 0 \<longrightarrow> y \<le> 0"
proof -
  from assms(1) have M0: "0 \<le> M"
    by simp
  with assms(2) have M: "nearest M = M" "M < 2 ^ 1024"
    by (simp_all add: is_double_iff)
  have le: "nearest \<bar>a\<bar> \<le> M"
    using nearest_mono [of "\<bar>a\<bar>" M] assms(1) M(1) by simp
  with M(2) have fin: "\<not> 2 ^ 1024 \<le> nearest \<bar>a\<bar>"
    by simp
  have n0: "0 \<le> nearest \<bar>a\<bar>"
    by (rule nearest_nonneg) simp
  show thesis
  proof (cases "a < 0")
    case True
    with fin le n0 that [of "- nearest \<bar>a\<bar>"] show thesis
      by (simp add: double_def)
  next
    case False
    with fin le n0 that [of "nearest \<bar>a\<bar>"] show thesis
      by (simp add: double_def)
  qed
qed

lemma double_at_least:
  assumes "0 \<le> m" "m \<le> a" "is_double m" "double (Num a) = Num y"
  shows "m \<le> y"
proof -
  from assms(1,2) have a0: "0 \<le> a"
    by simp
  from assms(1,3) have "nearest m = m"
    by (simp add: is_double_iff)
  moreover have "nearest m \<le> nearest a"
    using assms(1,2) by (rule nearest_mono)
  moreover have "y = nearest a"
    using assms(4) a0 by (simp add: double_def split: if_splits)
  ultimately show ?thesis
    by simp
qed

text \<open>A certificate for the rounding of a number that is no double.\<close>

lemma double_certificate:
  assumes "0 \<le> a" "- 1074 \<le> e" "e \<le> 971" "a < 2 ^ 53 * 2 powi e"
      and "e = - 1074 \<or> 2 ^ 52 * 2 powi e \<le> a"
      and "of_int n - 1 / 2 < a / 2 powi e" "a / 2 powi e < of_int n + 1 / 2" "n < 2 ^ 53"
  shows "double (Num a) = Num (of_int n * 2 powi e)"
proof -
  have e: "exponent a = e"
    using assms(2-5) by (rule exponent_unique)
  have r: "round_half_even (a / 2 powi e) = n"
    using assms(6,7) by (rule round_half_even_nearest)
  have n: "nearest a = of_int n * 2 powi e"
    by (simp add: nearest_def e r)
  have "of_int n < (2::rat) ^ 53"
    using assms(8) by (metis of_int_less_iff of_int_numeral of_int_power)
  then have "of_int n * 2 powi e < (2::rat) ^ 53 * 2 powi e"
    by simp
  also have "\<dots> \<le> 2 ^ 53 * 2 powi 971"
    using assms(3) by (intro mult_left_mono two_powi_mono) simp_all
  also have "\<dots> = 2 ^ 1024"
    by (simp only: power_int_numeral power_add [symmetric]) simp
  finally have "\<not> 2 ^ 1024 \<le> nearest \<bar>a\<bar>"
    using assms(1) n by simp
  with assms(1) n show ?thesis
    by (simp add: double_def)
qed

section \<open>The aggregation engine: auxiliary facts\<close>

subsection \<open>Sums\<close>

lemma Num_zero_plus [simp]: "Num 0 + x = x" "x + Num 0 = x"
  by (cases x; simp)+

lemma foldl_plus_sum_list:
  fixes a :: jsnum
  shows "foldl (\<lambda>s x. s + f x) a xs = a + sum_list (map f xs)"
  by (induction xs arbitrary: a) (simp_all add: add.assoc)

lemma sum_list_Num: "sum_list (map (\<lambda>x. Num (g x)) xs) = Num (sum_list (map g xs))"
  by (induction xs) (simp_all add: zero_jsnum_def)

lemma sum_left_Nil [simp]: "sum_left rnd [] = Num 0"
  by (simp add: sum_left_def)

lemma sum_left_snoc: "sum_left rnd (xs @ [x]) = rnd (sum_left rnd xs + x)"
  by (simp add: sum_left_def)

lemma sum_left_map: "foldl (\<lambda>s i. rnd (s + f i)) (Num 0) xs = sum_left rnd (map f xs)"
  by (simp add: sum_left_def foldl_map)

lemma sum_left_exact: "sum_left exact xs = sum_list xs"
  using foldl_plus_sum_list [of "\<lambda>x. x" "Num 0" xs] by (simp add: sum_left_def exact_apply)

subsection \<open>The order of the properties\<close>

lemma mset_own_properties [simp]: "mset (own_properties obj) = mset obj"
  unfolding own_properties_def mset_append mset_sort mset_filter
  by (rule union_filter_mset_complement) simp

lemma set_own_properties [simp]: "set (own_properties obj) = set obj"
  by (metis mset_own_properties set_mset_mset)

lemma distinct_own_properties:
  "distinct (map fst obj) \<Longrightarrow> distinct (map fst (own_properties obj))"
proof -
  have "mset (map fst (own_properties obj)) = mset (map fst obj)"
    by simp
  then show "distinct (map fst obj) \<Longrightarrow> distinct (map fst (own_properties obj))"
    by (metis mset_eq_imp_distinct_iff)
qed

lemma map_of_own_properties:
  "distinct (map fst obj) \<Longrightarrow> map_of (own_properties obj) = map_of obj"
  by (intro map_of_inject_set [THEN iffD2] distinct_own_properties) simp_all

lemma sum_list_own_properties:
  fixes f :: "jsstring \<times> 'a \<Rightarrow> 'b::comm_monoid_add"
  shows "sum_list (map f (own_properties obj)) = sum_list (map f obj)"
proof -
  have "mset (map f (own_properties obj)) = mset (map f obj)"
    by simp
  then show ?thesis
    by (metis sum_mset_sum_list)
qed

subsection \<open>The first loop\<close>

lemma subtotals_snoc: "subtotals rnd (xs @ [x]) = add_item rnd (subtotals rnd xs) x"
  by (simp add: subtotals_def)

lemma distinct_add_item:
  "distinct (map fst totals) \<Longrightarrow> distinct (map fst (add_item rnd totals x))"
  by (simp add: add_item_def distinct_update split: property.splits)

lemma distinct_subtotals: "distinct (map fst (subtotals rnd its))"
  by (induction its rule: rev_induct)
    (simp_all add: subtotals_snoc distinct_add_item, simp add: subtotals_def)

lemma category_items_snoc:
  "category_items (xs @ [x]) c = category_items xs c @ (if category x = c then [x] else [])"
  by (simp add: category_items_def)

lemma category_items_empty: "c \<notin> category ` set xs \<Longrightarrow> category_items xs c = []"
  by (auto simp: category_items_def filter_empty_conv)

text \<open>
  After the first loop \<open>totals\<close> has one property for each category that is not the name of a
  member of \<open>Object.prototype\<close>, and its subtotal is the sum of the prices of the items of
  that category, added up from the left in entry order.
\<close>

lemma map_of_subtotals:
  "map_of (subtotals rnd its) c =
     (if c \<in> category ` set its \<and> c \<notin> set Object_prototype_keys
      then Some \<lparr>subtotal = sum_left rnd (map (\<lambda>i. Num (price i)) (category_items its c)),
                 discount = Num 0, tax = Num 0, total' = Num 0\<rparr>
      else None)"
proof (induction its arbitrary: c rule: rev_induct)
  case Nil
  show ?case by (simp add: subtotals_def)
next
  case (snoc x xs)
  show ?case
  proof (cases "category x \<in> set Object_prototype_keys")
    case True
    then have "add_item rnd (subtotals rnd xs) x = subtotals rnd xs"
      by (simp add: add_item_def get_property_def snoc.IH)
    with True show ?thesis
      by (auto simp: subtotals_snoc snoc.IH category_items_snoc)
  next
    case False
    show ?thesis
    proof (cases "category x \<in> category ` set xs")
      case True
      with False show ?thesis
        by (auto simp: subtotals_snoc add_item_def get_property_def snoc.IH update_conv'
            category_items_snoc sum_left_snoc)
    next
      case new: False
      then have "category_items xs (category x) = []"
        by (rule category_items_empty)
      with False new show ?thesis
        by (auto simp: subtotals_snoc add_item_def get_property_def snoc.IH update_conv'
            category_items_snoc sum_left_def)
    qed
  qed
qed

lemma subtotals_entry:
  "(c, t) \<in> set (subtotals rnd its) \<longleftrightarrow>
     c \<in> category ` set its \<and> c \<notin> set Object_prototype_keys \<and>
     t = \<lparr>subtotal = sum_left rnd (map (\<lambda>i. Num (price i)) (category_items its c)),
          discount = Num 0, tax = Num 0, total' = Num 0\<rparr>"
  using map_of_eq_Some_iff [OF distinct_subtotals, of rnd its c t]
  by (auto simp: map_of_subtotals split: if_splits)

lemma subtotal_of_entry:
  "e \<in> set (subtotals rnd its) \<Longrightarrow>
     subtotal (snd e) = sum_left rnd (map (\<lambda>i. Num (price i)) (category_items its (fst e)))"
  using subtotals_entry [of "fst e" "snd e" rnd its] by simp

subsection \<open>The second loop\<close>

lemma fst_finish_category [simp]: "fst (finish_category rnd its dt dValue rate T e) = fst e"
  by (simp add: finish_category_def split_def Let_def)

lemma computeTotals_with_entry:
  "(c, t) \<in> set (computeTotals_with rnd its tr dt dv) \<longleftrightarrow>
     c \<in> category ` set its \<and> c \<notin> set Object_prototype_keys \<and>
     t = snd (finish_category rnd its dt (or_zero (parseFloat_with rnd dv))
               (rnd (parseFloat_with rnd tr / Num 100))
               (totalSubtotal rnd (subtotals rnd its))
               (c, \<lparr>subtotal = sum_left rnd (map (\<lambda>i. Num (price i)) (category_items its c)),
                    discount = Num 0, tax = Num 0, total' = Num 0\<rparr>))"
  (is "?L \<longleftrightarrow> ?A \<and> ?B \<and> t = snd (?F (c, ?t0))")
proof
  assume ?L
  then obtain e where e: "e \<in> set (subtotals rnd its)" and eq: "(c, t) = ?F e"
    by (auto simp: computeTotals_with_def Let_def)
  from eq have c: "fst e = c"
    by (metis fst_conv fst_finish_category)
  with e have "(c, snd e) \<in> set (subtotals rnd its)"
    by (metis prod.collapse)
  then have "?A" "?B" "snd e = ?t0"
    by (simp_all add: subtotals_entry)
  moreover from this c have "e = (c, ?t0)"
    by (metis prod.collapse)
  ultimately show "?A \<and> ?B \<and> t = snd (?F (c, ?t0))"
    using eq by (metis snd_conv)
next
  assume r: "?A \<and> ?B \<and> t = snd (?F (c, ?t0))"
  then have "(c, ?t0) \<in> set (subtotals rnd its)"
    by (simp add: subtotals_entry)
  then have "?F (c, ?t0) \<in> set (computeTotals_with rnd its tr dt dv)"
    by (simp add: computeTotals_with_def Let_def)
  moreover have "?F (c, ?t0) = (c, t)"
    using r by (metis fst_conv fst_finish_category prod.collapse)
  ultimately show ?L by simp
qed

lemma computeTotals_with_fields:
  assumes "(c, t) \<in> set (computeTotals_with rnd its tr dt dv)"
  shows "subtotal t = sum_left rnd (map (\<lambda>i. Num (price i)) (category_items its c))"
    and "discount t = category_discount rnd dt (or_zero (parseFloat_with rnd dv))
           (totalSubtotal rnd (subtotals rnd its)) (subtotal t)"
    and "tax t = category_tax rnd its c (subtotal t) (discount t)
           (rnd (parseFloat_with rnd tr / Num 100))"
    and "total' t = rnd (rnd (subtotal t - discount t) + tax t)"
    and "c \<in> category ` set its"
  using assms by (simp_all add: computeTotals_with_entry finish_category_def Let_def)

lemma category_tax_sum_left:
  "category_tax rnd its c sub disc rate =
     sum_left rnd
       (map (\<lambda>i. rnd (rnd (Num (price i) - rnd (rnd (Num (price i) / sub) * disc)) * rate))
          (filter taxable (category_items its c)))"
  by (simp add: category_tax_def category_items_def sum_left_def foldl_map Let_def conj_commute)

lemma or_zero_Num [simp]: "or_zero (Num v) = Num v"
  by (simp add: or_zero_def)

lemma map_of_computeTotals_with:
  "map_of (computeTotals_with rnd its tr dt dv) c =
     map_option (\<lambda>t. snd (finish_category rnd its dt (or_zero (parseFloat_with rnd dv))
                          (rnd (parseFloat_with rnd tr / Num 100))
                          (totalSubtotal rnd (subtotals rnd its)) (c, t)))
       (map_of (subtotals rnd its) c)"
proof -
  let ?F = "finish_category rnd its dt (or_zero (parseFloat_with rnd dv))
      (rnd (parseFloat_with rnd tr / Num 100)) (totalSubtotal rnd (subtotals rnd its))"
  have "map_of (map (\<lambda>e. (fst e, g (fst e) (snd e))) al) c = map_option (g c) (map_of al c)"
    for g :: "jsstring \<Rightarrow> CategoryTotal \<Rightarrow> CategoryTotal" and al
    by (induction al) auto
  from this [of "\<lambda>k v. snd (?F (k, v))" "own_properties (subtotals rnd its)"]
  have "map_of (map (\<lambda>e. (fst e, snd (?F e))) (own_properties (subtotals rnd its))) c
    = map_option (\<lambda>t. snd (?F (c, t))) (map_of (own_properties (subtotals rnd its)) c)"
    by simp
  moreover have "(\<lambda>e. (fst e, snd (?F e))) = ?F"
    by (rule ext) (metis fst_finish_category prod.collapse)
  ultimately show ?thesis
    by (simp add: computeTotals_with_def Let_def map_of_own_properties distinct_subtotals)
qed

lemmas eval_defs = computeTotals_def computeTotals_with_def subtotals_def add_item_def
  get_property_def Object_prototype_keys_def totalSubtotal_def finish_category_def
  category_discount_def category_tax_def or_zero_def parseFloat_def parseFloat_with_def
  parse_decimal_def ascii_def is_white_def is_digit_def digits_val_def scale10_def
  minus_jsnum_def Let_def own_properties_def array_index_def exact_apply
  milk_def bread_def EMPTY_ITEM_def tea_def cake_def sofa_def lamp_def pen_def desk_def ingot_def

subsection \<open>Exact arithmetic\<close>

lemma subtotal_exact:
  "sum_left exact (map (\<lambda>i. Num (price i)) (category_items its c)) = Num (category_sum its c)"
  by (simp add: sum_left_exact sum_list_Num category_sum_def)

lemma totalSubtotal_exact:
  "totalSubtotal exact (subtotals exact its) =
     Num (sum_list (map (\<lambda>e. category_sum its (fst e)) (subtotals exact its)))"
proof -
  have "map (\<lambda>e. subtotal (snd e)) (subtotals exact its) =
        map (\<lambda>e. Num (category_sum its (fst e))) (subtotals exact its)"
    by (rule map_cong) (simp_all add: subtotal_of_entry subtotal_exact)
  then have "sum_list (map (\<lambda>e. subtotal (snd e)) (subtotals exact its)) =
        Num (sum_list (map (\<lambda>e. category_sum its (fst e)) (subtotals exact its)))"
    by (simp only: sum_list_Num)
  moreover have "totalSubtotal exact (subtotals exact its) =
      sum_list (map (\<lambda>e. subtotal (snd e)) (own_properties (subtotals exact its)))"
    using sum_left_exact [of "map (\<lambda>e. subtotal (snd e)) (own_properties (subtotals exact its))"]
    by (simp add: totalSubtotal_def sum_left_def foldl_map comp_def)
  ultimately show ?thesis
    by (simp only: sum_list_own_properties)
qed

lemma category_sum_over_set:
  "finite C \<Longrightarrow> sum (category_sum its) C =
     sum_list (map price (filter (\<lambda>i. category i \<in> C) its))"
proof (induction its)
  case Nil
  then show ?case by (simp add: category_sum_def category_items_def)
next
  case (Cons x xs)
  have "category_sum (x # xs) c = (if c = category x then price x else 0) + category_sum xs c" for c
    by (simp add: category_sum_def category_items_def)
  then have "sum (category_sum (x # xs)) C =
      (\<Sum>c\<in>C. if c = category x then price x else 0) + sum (category_sum xs) C"
    by (simp add: sum.distrib)
  with Cons show ?case by simp
qed

text \<open>
  In exact arithmetic the subtotals add up to the prices of the items whose category is not
  the name of a member of \<open>Object.prototype\<close>.
\<close>

lemma sum_subtotals:
  "sum_list (map (\<lambda>e. subtotal (snd e)) (computeTotals_with exact its tr dt dv)) =
     Num (sum_list (map price (filter (\<lambda>i. category i \<notin> set Object_prototype_keys) its)))"
proof -
  let ?out = "computeTotals_with exact its tr dt dv"
  let ?sub = "subtotals exact its"
  let ?C = "set (map fst ?sub)"
  have keys: "map fst ?out = map fst (own_properties ?sub)"
    by (simp add: computeTotals_with_def Let_def comp_def)
  have "c \<in> ?C \<longleftrightarrow> (\<exists>t. (c, t) \<in> set ?sub)" for c
    by force
  then have C: "?C = category ` set its - set Object_prototype_keys"
    unfolding subtotals_entry by blast
  have "map (\<lambda>e. subtotal (snd e)) ?out = map (\<lambda>e. Num (category_sum its (fst e))) ?out"
  proof (rule map_cong [OF refl])
    fix e assume "e \<in> set ?out"
    then have "(fst e, snd e) \<in> set ?out" by simp
    from computeTotals_with_fields(1) [OF this]
    show "subtotal (snd e) = Num (category_sum its (fst e))"
      by (simp add: subtotal_exact)
  qed
  then have "sum_list (map (\<lambda>e. subtotal (snd e)) ?out) =
      Num (sum_list (map (\<lambda>e. category_sum its (fst e)) ?out))"
    by (simp only: sum_list_Num)
  also have "map (\<lambda>e. category_sum its (fst e)) ?out = map (category_sum its) (map fst ?out)"
    by (simp add: comp_def)
  also have "sum_list (map (category_sum its) (map fst ?out)) = sum (category_sum its) ?C"
  proof -
    have "distinct (map fst (own_properties ?sub))"
      by (intro distinct_own_properties distinct_subtotals)
    then have "sum_list (map (category_sum its) (map fst (own_properties ?sub))) =
        sum (category_sum its) (set (map fst (own_properties ?sub)))"
      by (rule sum_list_distinct_conv_sum_set)
    then show ?thesis
      unfolding keys by simp
  qed
  also have "\<dots> = sum_list (map price (filter (\<lambda>i. category i \<in> ?C) its))"
    by (rule category_sum_over_set) simp
  also have "filter (\<lambda>i. category i \<in> ?C) its =
      filter (\<lambda>i. category i \<notin> set Object_prototype_keys) its"
    unfolding C by (rule filter_cong) auto
  finally show ?thesis .
qed

subsection \<open>The program on non-negative prices\<close>

lemma double_dyadic:
  assumes "\<bar>m\<bar> < 2 ^ 53" "k \<le> 1074"
  shows "double (Num (of_int m / 2 ^ k)) = Num (of_int m / 2 ^ k)"
proof -
  have "of_int m / 2 ^ k = (of_int m :: rat) * 2 powi (- int k)"
    by (simp add: power_int_minus field_simps)
  then have "is_double (of_int m / 2 ^ k)"
    using assms by (intro is_double_exact [of _ m "- int k"]) simp_all
  then show ?thesis
    by (simp add: is_double_def)
qed

lemma double_samples:
  "double (Num (1 / 2)) = Num (1 / 2)"
  "double (Num (3 / 4)) = Num (3 / 4)"
  "double (Num (3 / 2)) = Num (3 / 2)"
  "double (Num (11 / 4)) = Num (11 / 4)"
  "double (Num (11 / 2)) = Num (11 / 2)"
  "double (Num (- (3 / 2))) = Num (- (3 / 2))"
  "double (Num (- (11 / 2))) = Num (- (11 / 2))"
  "double (Num (3 / 5)) = Num (5404319552844595 / 2 ^ 53)"
  using double_dyadic [of 1 1] double_dyadic [of 3 2] double_dyadic [of 3 1]
    double_dyadic [of 11 2] double_dyadic [of 11 1] double_dyadic [of "- 3" 1]
    double_dyadic [of "- 11" 1] double_certificate [of "3 / 5" "- 53" 5404319552844595]
  by (simp_all add: power_int_minus)

lemma double_samples_inexact:
  "double (Num (1 / 10)) = Num (3602879701896397 / 36028797018963968)"
  "double (Num (7 / 25)) = Num (1261007895663739 / 4503599627370496)"
  "double (Num (31525197391593475 / 4503599627370496)) = Num (7881299347898369 / 1125899906842624)"
  "double (Num (- (1 / 1125899906842624))) = Num (- (1 / 1125899906842624))"
  "double (Num (- (3602879701896397 / 40564819207303340847894502572032))) =
     Num (- (3602879701896397 / 40564819207303340847894502572032))"
  using double_certificate [of "1 / 10" "- 56" 7205759403792794]
    double_certificate [of "7 / 25" "- 54" 5044031582654956]
    double_certificate [of "31525197391593475 / 4503599627370496" "- 50" 7881299347898369]
    double_dyadic [of "- 1" 50] double_dyadic [of "- 3602879701896397" 105]
  by (simp_all add: power_int_minus)

lemma double_overflow:
  assumes "2 ^ 1024 \<le> a"
  shows "double (Num a) = PosInf"
proof -
  have "(2::rat) ^ 1024 = of_int (2 ^ 52) * 2 powi 972"
    by (simp only: power_int_numeral of_int_power of_int_numeral power_add [symmetric]) simp
  then have "nearest (2 ^ 1024) = 2 ^ 1024"
    by (intro nearest_exact [of _ "2 ^ 52" 972]) simp_all
  moreover have "nearest (2 ^ 1024) \<le> nearest a"
    using assms by (intro nearest_mono) simp_all
  moreover have "0 < a"
    using assms by (rule less_le_trans [rotated]) simp
  ultimately show ?thesis
    by (simp add: double_def)
qed

lemma double_largest_power:
  "double (Num (2 ^ 1023)) = Num (2 ^ 1023)"
proof -
  have "(2::rat) ^ 1023 = of_int (2 ^ 52) * 2 powi 971"
    by (simp only: power_int_numeral of_int_power of_int_numeral power_add [symmetric]) simp
  then have "is_double (2 ^ 1023)"
    by (intro is_double_exact [of _ "2 ^ 52" 971]) simp_all
  then show ?thesis
    by (simp only: is_double_def)
qed

lemma nonneg_doubleE:
  assumes "nonneg_double x"
  obtains "x = PosInf" | a where "x = Num a" "0 \<le> a" "is_double a"
  using assms by (cases x) (auto simp: nonneg_double_def)

lemma nonneg_double_round:
  assumes "0 \<le> a"
  shows "nonneg_double (double (Num a))"
  using double_nonneg [OF assms] is_double_result [of "Num a"]
  by (auto simp: nonneg_double_def)

lemma sum_left_nonneg_double:
  assumes "\<forall>x\<in>set xs. nonneg_double x"
  shows "nonneg_double (sum_left double xs) \<and>
         (\<forall>a s. Num a \<in> set xs \<and> sum_left double xs = Num s \<longrightarrow> a \<le> s) \<and>
         (PosInf \<in> set xs \<longrightarrow> sum_left double xs = PosInf)"
  using assms
proof (induction xs rule: rev_induct)
  case Nil
  show ?case
    by (simp add: nonneg_double_def)
next
  case (snoc x xs)
  then have IH: "nonneg_double (sum_left double xs)"
      "\<And>a s. Num a \<in> set xs \<Longrightarrow> sum_left double xs = Num s \<Longrightarrow> a \<le> s"
      "PosInf \<in> set xs \<Longrightarrow> sum_left double xs = PosInf"
    and x: "nonneg_double x"
    by auto
  from IH(1) show ?case
  proof (cases rule: nonneg_doubleE)
    case 1
    with x show ?thesis
      by (cases x) (auto simp: sum_left_snoc nonneg_double_def)
  next
    case (2 s)
    from x show ?thesis
    proof (cases rule: nonneg_doubleE)
      case 1
      with 2 show ?thesis
        by (auto simp: sum_left_snoc nonneg_double_def)
    next
      case x: (2 a)
      have sum: "sum_left double (xs @ [x]) = double (Num (s + a))"
        using 2(1) x(1) by (simp add: sum_left_snoc)
      have nd: "nonneg_double (double (Num (s + a)))"
        using 2(2) x(2) by (intro nonneg_double_round) simp
      have ge: "s \<le> y \<and> a \<le> y" if "double (Num (s + a)) = Num y" for y
        using double_at_least [of s "s + a" y] double_at_least [of a "s + a" y] 2 x that
        by simp
      have "b \<le> y" if "Num b \<in> set (xs @ [x])" "double (Num (s + a)) = Num y" for b y
      proof (cases "Num b \<in> set xs")
        case True
        with IH(2) [OF _ 2(1)] ge [OF that(2)] show ?thesis
          by force
      next
        case False
        with that(1) x(1) have "b = a"
          by simp
        with ge [OF that(2)] show ?thesis
          by simp
      qed
      moreover have "PosInf \<notin> set (xs @ [x])"
        using IH(3) 2(1) x(1) by auto
      ultimately show ?thesis
        unfolding sum using nd by blast
    qed
  qed
qed

lemma sum_left_numeric:
  assumes "\<forall>x\<in>set xs. \<exists>a. x = Num a"
  shows "sum_left double xs \<noteq> NaN"
  using assms
proof (induction xs rule: rev_induct)
  case Nil
  show ?case by simp
next
  case (snoc x xs)
  then obtain a where "x = Num a" "sum_left double xs \<noteq> NaN"
    by auto
  then have "sum_left double xs + x \<noteq> NaN"
    by (cases "sum_left double xs") simp_all
  then show ?case
    unfolding sum_left_snoc by (rule double_numeric)
qed

lemma is_double_parseFloat: "parseFloat s = Num a \<Longrightarrow> is_double a"
  unfolding parseFloat_def parseFloat_with_def by (rule is_double_result)

lemma is_double_or_zero: "or_zero (parseFloat s) = Num a \<Longrightarrow> is_double a"
  using is_double_parseFloat [of s a] by (auto simp: or_zero_def split: if_splits)

lemma is_double_max: "is_double a \<Longrightarrow> is_double b \<Longrightarrow> is_double (max a b)"
  by (simp add: max_def)

text \<open>The subtotal of a category: at least 0, and at least every price it is the sum of.\<close>

lemma subtotal_nonneg_double:
  assumes "\<forall>i\<in>set its. 0 \<le> price i \<and> is_double (price i)"
  shows "nonneg_double (sum_left double (map (\<lambda>i. Num (price i)) (category_items its c)))"
    and "i \<in> set (category_items its c) \<Longrightarrow>
         sum_left double (map (\<lambda>i. Num (price i)) (category_items its c)) = Num s \<Longrightarrow> price i \<le> s"
proof -
  let ?xs = "map (\<lambda>i. Num (price i)) (category_items its c)"
  have "\<forall>x\<in>set ?xs. nonneg_double x"
    using assms by (auto simp: category_items_def nonneg_double_def)
  note facts = sum_left_nonneg_double [OF this]
  from facts show "nonneg_double (sum_left double ?xs)"
    by simp
  assume "i \<in> set (category_items its c)" "sum_left double ?xs = Num s"
  moreover from this(1) have "Num (price i) \<in> set ?xs"
    by force
  ultimately show "price i \<le> s"
    using facts by blast
qed

text \<open>The total subtotal: at least 0, and at least every subtotal.\<close>

lemma totalSubtotal_nonneg_double:
  assumes "\<forall>i\<in>set its. 0 \<le> price i \<and> is_double (price i)"
  shows "nonneg_double (totalSubtotal double (subtotals double its))"
    and "(c, t) \<in> set (subtotals double its) \<Longrightarrow> subtotal t = Num s \<Longrightarrow>
         totalSubtotal double (subtotals double its) = Num T \<Longrightarrow> s \<le> T"
proof -
  let ?xs = "map (\<lambda>e. subtotal (snd e)) (own_properties (subtotals double its))"
  have T: "totalSubtotal double (subtotals double its) = sum_left double ?xs"
    by (simp add: totalSubtotal_def sum_left_def foldl_map comp_def)
  have "\<forall>x\<in>set ?xs. nonneg_double x"
    using subtotal_nonneg_double(1) [OF assms] by (auto simp: subtotal_of_entry)
  note facts = sum_left_nonneg_double [OF this]
  from facts show "nonneg_double (totalSubtotal double (subtotals double its))"
    by (simp add: T)
  assume "(c, t) \<in> set (subtotals double its)" "subtotal t = Num s"
    "totalSubtotal double (subtotals double its) = Num T"
  moreover from this(1,2) have "Num s \<in> set ?xs"
    by force
  ultimately show "s \<le> T"
    using facts by (simp add: T)
qed

text \<open>
  The subtotal and the discount of a category, for non-negative prices and a non-negative
  discount value, when neither of the two has overflowed.
\<close>

lemma subtotal_and_discount:
  assumes prices: "\<forall>i\<in>set its. 0 \<le> price i \<and> is_double (price i)"
      and dval: "or_zero (parseFloat dv) = Num d" "0 \<le> d"
      and entry: "(c, t) \<in> set (computeTotals its tr dt dv)"
      and fin: "subtotal t \<noteq> PosInf" "discount t \<noteq> PosInf"
      and total: "dt = Amount \<longrightarrow> totalSubtotal double (subtotals double its) \<noteq> Num 0"
  obtains s dd where "subtotal t = Num s" "0 \<le> s" "is_double s"
    "\<forall>i\<in>set (category_items its c). price i \<le> s"
    "discount t = Num dd" "0 \<le> dd" "is_double dd" "d = 0 \<longrightarrow> dd = 0"
proof -
  from entry have entry': "(c, t) \<in> set (computeTotals_with double its tr dt dv)"
    by (simp add: computeTotals_def)
  note f = computeTotals_with_fields [OF entry']
  have dv': "or_zero (parseFloat_with double dv) = Num d"
    using dval(1) by (simp add: parseFloat_def)
  have dd: "is_double d"
    using dval(1) by (rule is_double_or_zero)
  from subtotal_nonneg_double(1) [OF prices, of c] fin(1) f(1)
  obtain s where s: "subtotal t = Num s" "0 \<le> s" "is_double s"
    by (auto elim: nonneg_doubleE)
  have le: "\<forall>i\<in>set (category_items its c). price i \<le> s"
    using subtotal_nonneg_double(2) [OF prices] s(1) f(1) by auto
  have "\<exists>dd. discount t = Num dd \<and> 0 \<le> dd \<and> (d = 0 \<longrightarrow> dd = 0)"
  proof (cases dt)
    case Percentage
    have "\<bar>d / 100\<bar> \<le> d"
      using dval(2) by simp
    from double_bounded [OF this dd] obtain q where q: "double (Num (d / 100)) = Num q" "0 \<le> q"
      "d = 0 \<longrightarrow> q = 0"
      using dval(2) by (metis abs_le_zero_iff abs_zero divide_nonneg_nonneg zero_le_numeral
          order_refl divide_eq_0_iff)
    have disc: "discount t = double (Num (s * q))"
      using Percentage q(1) by (simp add: f(2) dv' s(1) category_discount_def)
    have "0 \<le> s * q"
      using s(2) q(2) by simp
    from double_nonneg [OF this] fin(2) disc obtain y where "discount t = Num y" "0 \<le> y"
      by auto
    moreover have "d = 0 \<longrightarrow> discount t = Num 0"
      using q(3) disc by auto
    ultimately show ?thesis
      by auto
  next
    case Amount
    let ?T = "totalSubtotal double (subtotals double its)"
    have mem: "(c, \<lparr>subtotal = Num s, discount = Num 0, tax = Num 0, total' = Num 0\<rparr>)
        \<in> set (subtotals double its)"
      using entry' s(1) f(1) by (simp add: computeTotals_with_entry subtotals_entry)
    have "\<exists>u. double (Num s / ?T) = Num u \<and> 0 \<le> u \<and> u \<le> 1"
      using totalSubtotal_nonneg_double(1) [OF prices]
    proof (cases rule: nonneg_doubleE)
      case 1
      then show ?thesis by simp
    next
      case (2 T)
      with total Amount have T0: "0 < T"
        by simp
      from totalSubtotal_nonneg_double(2) [OF prices mem _ 2(1)] have "s \<le> T"
        by simp
      with T0 s(2) have "\<bar>s / T\<bar> \<le> 1"
        by simp
      from double_bounded [OF this is_double_one] obtain u where
        "double (Num (s / T)) = Num u" "\<bar>u\<bar> \<le> 1" "0 \<le> u"
        using T0 s(2) by (metis divide_nonneg_pos)
      with 2(1) T0 show ?thesis
        by auto
    qed
    then obtain u where u: "double (Num s / ?T) = Num u" "0 \<le> u" "u \<le> 1"
      by blast
    have disc: "discount t = double (Num (d * u))"
      using Amount u(1) by (simp add: f(2) dv' s(1) category_discount_def)
    have "\<bar>d * u\<bar> \<le> d"
      using dval(2) u(2,3) by (simp add: abs_mult mult_left_le)
    from double_bounded [OF this dd] obtain y where "double (Num (d * u)) = Num y" "0 \<le> y"
      using dval(2) u(2) by (metis mult_nonneg_nonneg)
    moreover have "d = 0 \<longrightarrow> discount t = Num 0"
      using disc by auto
    ultimately show ?thesis
      using disc by auto
  qed
  then obtain y where y: "discount t = Num y" "0 \<le> y" "d = 0 \<longrightarrow> y = 0"
    by blast
  have dy: "is_double y"
  proof (cases dt)
    case Percentage
    then show ?thesis
      using y(1) f(2) by (auto simp: category_discount_def intro: is_double_result)
  next
    case Amount
    then show ?thesis
      using y(1) f(2) by (auto simp: category_discount_def intro: is_double_result)
  qed
  from that [OF s le y(1,2) dy y(3)] show thesis .
qed

text \<open>One summand of the tax, for a price that is at most the subtotal of its category.\<close>

lemma price_share:
  assumes "0 \<le> p" "p \<le> s" "0 < s"
  obtains u where "double (Num (p / s)) = Num u" "0 \<le> u" "u \<le> 1"
proof -
  have "\<bar>p / s\<bar> \<le> 1"
    using assms by simp
  from double_bounded [OF this is_double_one] obtain u where
    "double (Num (p / s)) = Num u" "\<bar>u\<bar> \<le> 1" "0 \<le> p / s \<longrightarrow> 0 \<le> u"
    by blast
  with assms that [of u] show thesis
    by simp
qed

lemma tax_term_finite:
  assumes p: "0 \<le> p" "is_double p" "p \<le> s" "0 < s"
      and dd: "0 \<le> dd" "is_double dd"
      and rate: "\<bar>\<rho>\<bar> \<le> 1"
  shows "\<exists>\<tau>. double (double (Num p - double (double (Num p / Num s) * Num dd)) * Num \<rho>) = Num \<tau>"
proof -
  from price_share [OF p(1,3,4)] obtain u where
    u: "double (Num (p / s)) = Num u" "0 \<le> u" "u \<le> 1" .
  have "\<bar>u * dd\<bar> \<le> dd"
    using u(2,3) dd(1) by (simp add: abs_mult mult_left_le_one_le)
  from double_bounded [OF this dd(2)] obtain w where
    w: "double (Num (u * dd)) = Num w" "\<bar>w\<bar> \<le> dd" "0 \<le> w"
    using u(2) dd(1) by (metis mult_nonneg_nonneg)
  have "\<bar>p - w\<bar> \<le> max p dd"
    using p(1) w(2,3) by auto
  from double_bounded [OF this is_double_max [OF p(2) dd(2)]] obtain \<delta> where
    \<delta>: "double (Num (p - w)) = Num \<delta>" "\<bar>\<delta>\<bar> \<le> max p dd"
    by blast
  have "\<bar>\<delta> * \<rho>\<bar> \<le> max p dd"
  proof -
    have "\<bar>\<delta> * \<rho>\<bar> = \<bar>\<delta>\<bar> * \<bar>\<rho>\<bar>"
      by (rule abs_mult)
    also have "\<dots> \<le> \<bar>\<delta>\<bar> * 1"
      using rate by (intro mult_left_mono) simp_all
    finally show ?thesis
      using \<delta>(2) by simp
  qed
  from double_bounded [OF this is_double_max [OF p(2) dd(2)]] obtain \<tau> where
    "double (Num (\<delta> * \<rho>)) = Num \<tau>"
    by blast
  then show ?thesis
    using p(4) by (simp add: u(1) w(1) \<delta>(1) minus_jsnum_def)
qed


text \<open>The tax rate as a fraction, for a tax rate between -100 and 100.\<close>

lemma rate_bounded:
  assumes "parseFloat tr = Num r" "\<bar>r\<bar> \<le> 100"
  obtains \<rho> where "double (parseFloat_with double tr / Num 100) = Num \<rho>" "\<bar>\<rho>\<bar> \<le> 1"
    "0 \<le> r \<longrightarrow> 0 \<le> \<rho>"
proof -
  have "\<bar>r / 100\<bar> \<le> 1"
    using assms(2) by simp
  from double_bounded [OF this is_double_one] obtain \<rho> where
    "double (Num (r / 100)) = Num \<rho>" "\<bar>\<rho>\<bar> \<le> 1" "0 \<le> r / 100 \<longrightarrow> 0 \<le> \<rho>"
    by blast
  with assms(1) that [of \<rho>] show thesis
    by (simp add: parseFloat_def)
qed


text \<open>
  The fields of a category for non-negative prices, a non-negative discount value and a tax
  rate between -100 and 100, when neither its subtotal nor its discount has overflowed, a
  taxable item implies a subtotal other than 0, and the total subtotal of a flat discount is
  not 0: none of them is NaN.
\<close>

lemma fields_numeric:
  assumes prices: "\<forall>i\<in>set its. 0 \<le> price i \<and> is_double (price i)"
      and rate: "parseFloat tr = Num r" "\<bar>r\<bar> \<le> 100"
      and dval: "or_zero (parseFloat dv) = Num d" "0 \<le> d"
      and entry: "(c, t) \<in> set (computeTotals its tr dt dv)"
      and fin: "subtotal t \<noteq> PosInf" "discount t \<noteq> PosInf"
      and pos: "filter taxable (category_items its c) \<noteq> [] \<longrightarrow> subtotal t \<noteq> Num 0"
      and total: "dt = Amount \<longrightarrow> totalSubtotal double (subtotals double its) \<noteq> Num 0"
  shows "subtotal t \<noteq> NaN" "discount t \<noteq> NaN" "tax t \<noteq> NaN" "total' t \<noteq> NaN"
proof -
  from subtotal_and_discount [OF prices dval entry fin total] obtain s dd where
    s: "subtotal t = Num s" "0 \<le> s" "is_double s" "\<forall>i\<in>set (category_items its c). price i \<le> s"
    and dd: "discount t = Num dd" "0 \<le> dd" "is_double dd"
    by blast
  from rate_bounded [OF rate] obtain \<rho> where
    \<rho>: "double (parseFloat_with double tr / Num 100) = Num \<rho>" "\<bar>\<rho>\<bar> \<le> 1"
    by blast
  from entry have entry': "(c, t) \<in> set (computeTotals_with double its tr dt dv)"
    by (simp add: computeTotals_def)
  note f = computeTotals_with_fields [OF entry']
  let ?summand = "\<lambda>i. double (double (Num (price i) - double (double (Num (price i) / Num s) * Num dd))
      * Num \<rho>)"
  have tax: "tax t = sum_left double (map ?summand (filter taxable (category_items its c)))"
    by (simp add: f(3) s(1) dd(1) \<rho>(1) category_tax_sum_left)
  have "\<exists>a. ?summand i = Num a" if i: "i \<in> set (filter taxable (category_items its c))" for i
  proof -
    from i have ne: "filter taxable (category_items its c) \<noteq> []"
      by (metis empty_iff list.set(1))
    with pos s(1,2) have s0: "0 < s"
      by auto
    from i have "i \<in> set its" "price i \<le> s"
      using s(4) by (auto simp: category_items_def)
    with prices have "0 \<le> price i" "is_double (price i)" "price i \<le> s"
      by auto
    from tax_term_finite [OF this s0 dd(2,3) \<rho>(2)] show ?thesis .
  qed
  then have "\<forall>x\<in>set (map ?summand (filter taxable (category_items its c))). \<exists>a. x = Num a"
    by auto
  then have "sum_left double (map ?summand (filter taxable (category_items its c))) \<noteq> NaN"
    by (rule sum_left_numeric)
  then show tx: "tax t \<noteq> NaN"
    unfolding tax .
  show "subtotal t \<noteq> NaN" "discount t \<noteq> NaN"
    by (simp_all add: s(1) dd(1))
  have "\<bar>s - dd\<bar> \<le> max s dd"
    using s(2) dd(2) by auto
  from double_bounded [OF this is_double_max [OF s(3) dd(3)]] obtain \<alpha> where
    "double (Num (s - dd)) = Num \<alpha>"
    by blast
  then have "total' t = double (Num \<alpha> + tax t)"
    by (simp add: f(4) s(1) dd(1) minus_jsnum_def)
  moreover have "Num \<alpha> + tax t \<noteq> NaN"
    using tx by (cases "tax t") simp_all
  ultimately show "total' t \<noteq> NaN"
    by (simp add: double_numeric)
qed


section \<open>The aggregation engine: the properties claimed\<close>

text \<open>
  C2. Claim: an empty or non-numeric tax rate is treated as 0, so that every category's tax
  is the number 0, as for the rate \<open>"0"\<close>. The source computes
  \<open>parseFloat(taxRate) / 100\<close> without the \<open>|| 0\<close> that guards the discount value: for the
  empty tax rate and the two items Milk (taxable) and Bread, both in Grocery, the tax and the
  total of Grocery are NaN, while the rate \<open>"0"\<close> gives tax 0 and total 5.
\<close>

theorem empty_tax_rate_gives_NaN:
  "computeTotals [milk, bread] [] Percentage (ascii ''0'') =
     [(ascii ''Grocery'', \<lparr>subtotal = Num 5, discount = Num 0, tax = NaN, total' = NaN\<rparr>)] \<and>
   computeTotals [milk, bread] (ascii ''0'') Percentage (ascii ''0'') =
     [(ascii ''Grocery'', \<lparr>subtotal = Num 5, discount = Num 0, tax = Num 0, total' = Num 5\<rparr>)]"
  by (simp add: eval_defs double_samples)

text \<open>
  C3. Claim: with a flat discount and a total subtotal of 0 a fallback keeps discount and
  total numeric. The source divides by \<open>totalSubtotal\<close> unguarded: for the single blank row
  of price 0 and a flat discount of 10, the discount and the total of its category are NaN.
\<close>

theorem zero_subtotal_amount_gives_NaN:
  "computeTotals [EMPTY_ITEM] (ascii ''10'') Amount (ascii ''10'') =
     [([], \<lparr>subtotal = Num 0, discount = NaN, tax = Num 0, total' = NaN\<rparr>)]"
  by (simp add: eval_defs)

text \<open>
  C4. Claim: the subtotals of the categories add up to the sum of all prices. An item whose
  category is the name of a member of \<open>Object.prototype\<close> is never entered in \<open>totals\<close>:
  for one item of price 5 in the category \<open>constructor\<close> the result is empty, so the
  subtotals add up to 0 and the prices to 5.
\<close>

theorem subtotal_sum_inherited_key:
  "computeTotals [gadget] (ascii ''10'') Percentage (ascii ''0'') = [] \<and>
   sum_list (map (\<lambda>e. subtotal (snd e)) (computeTotals [gadget] (ascii ''10'') Percentage (ascii ''0'')))
     = Num 0 \<and>
   sum_list (map price [gadget]) = 5"
  by (simp add: eval_defs gadget_def zero_jsnum_def)

text \<open>
  C5. In exact arithmetic: with a flat discount whose value parses to \<open>v\<close> (an empty or
  non-numeric value counts as 0, by \<open>|| 0\<close>) and a strictly positive total subtotal, the
  discounts of all categories add up to \<open>v\<close>.
\<close>

theorem amount_discount_sum:
  assumes "or_zero (parseFloat_with exact dv) = Num v"
      and "totalSubtotal exact (subtotals exact its) = Num T" and "0 < T"
  shows "sum_list (map (\<lambda>e. discount (snd e)) (computeTotals_with exact its tr Amount dv)) = Num v"
proof -
  let ?out = "computeTotals_with exact its tr Amount dv"
  let ?sub = "subtotals exact its"
  let ?s = "\<lambda>e. category_sum its (fst e)"
  have T: "T = sum_list (map ?s ?sub)"
    using assms(2) by (simp add: totalSubtotal_exact)
  have keys: "map fst ?out = map fst (own_properties ?sub)"
    by (simp add: computeTotals_with_def Let_def comp_def)
  have "map (\<lambda>e. discount (snd e)) ?out = map (\<lambda>e. Num (v * (?s e / T))) ?out"
  proof (rule map_cong [OF refl])
    fix e assume "e \<in> set ?out"
    then have "(fst e, snd e) \<in> set ?out" by simp
    from computeTotals_with_fields(1,2) [OF this] show "discount (snd e) = Num (v * (?s e / T))"
      using assms by (simp add: category_discount_def subtotal_exact exact_apply)
  qed
  then have "sum_list (map (\<lambda>e. discount (snd e)) ?out) = Num (sum_list (map (\<lambda>e. v * (?s e / T)) ?out))"
    by (simp only: sum_list_Num)
  also have "(\<lambda>e. v * (?s e / T)) = (\<lambda>e. (v / T) * ?s e)"
    by (simp add: fun_eq_iff)
  also have "sum_list (map (\<lambda>e. (v / T) * ?s e) ?out) = (v / T) * sum_list (map ?s ?out)"
    by (rule sum_list_const_mult)
  also have "map ?s ?out = map ?s (own_properties ?sub)"
    using arg_cong [OF keys, of "map (category_sum its)"] by (simp add: comp_def)
  also have "sum_list (map ?s (own_properties ?sub)) = T"
    unfolding T by (rule sum_list_own_properties)
  finally show ?thesis
    using assms(3) by simp
qed

theorem amount_discount_sum_witness:
  "or_zero (parseFloat_with exact (ascii ''10'')) = Num 10 \<and>
   or_zero (parseFloat_with exact []) = Num 0 \<and>
   or_zero (parseFloat_with exact (ascii ''abc'')) = Num 0 \<and>
   totalSubtotal exact (subtotals exact [sofa, lamp]) = Num 100 \<and> (0::rat) < 100 \<and>
   map (\<lambda>e. discount (snd e)) (computeTotals_with exact [sofa, lamp] (ascii ''8.25'') Amount (ascii ''10''))
     = [Num 8, Num 2] \<and>
   sum_list (map (\<lambda>e. discount (snd e))
     (computeTotals_with exact [sofa, lamp] (ascii ''8.25'') Amount (ascii ''10''))) = Num 10 \<and>
   sum_list (map (\<lambda>e. discount (snd e))
     (computeTotals_with exact [sofa, lamp] (ascii ''8.25'') Amount [])) = Num 0 \<and>
   sum_list (map (\<lambda>e. discount (snd e))
     (computeTotals_with exact [sofa, lamp] (ascii ''8.25'') Amount (ascii ''abc''))) = Num 0"
proof -
  have p: "or_zero (parseFloat_with exact (ascii ''10'')) = Num 10"
    "or_zero (parseFloat_with exact []) = Num 0"
    "or_zero (parseFloat_with exact (ascii ''abc'')) = Num 0"
    by (simp_all add: eval_defs)
  have T: "totalSubtotal exact (subtotals exact [sofa, lamp]) = Num 100"
    by (simp add: eval_defs)
  have pos: "(0::rat) < 100"
    by simp
  have parts: "map (\<lambda>e. discount (snd e))
      (computeTotals_with exact [sofa, lamp] (ascii ''8.25'') Amount (ascii ''10'')) = [Num 8, Num 2]"
    by (simp add: eval_defs)
  from amount_discount_sum [OF p(1) T pos] amount_discount_sum [OF p(2) T pos]
    amount_discount_sum [OF p(3) T pos] p T pos parts
  show ?thesis
    by blast
qed

text \<open>
  C6. With a percentage discount whose value parses to the rate \<open>r\<close> (an empty or non-numeric
  value counts as 0, by \<open>|| 0\<close>), the discount of every category is its subtotal times
  \<open>r / 100\<close>, and the discount of a category \<open>c\<close> is the same for any two item lists that hold
  the same items of category \<open>c\<close>, whatever their other items. This holds for the program as
  it runs (\<open>rnd = double\<close>, the quotient and the product rounded) and in exact arithmetic
  (\<open>rnd = exact\<close>).
\<close>

theorem percentage_discount:
  assumes "or_zero (parseFloat_with rnd dv) = Num r"
  shows "(\<forall>(c, t) \<in> set (computeTotals_with rnd its tr Percentage dv).
            discount t = rnd (subtotal t * rnd (Num r / Num 100)))
         \<and> (category_items its' c = category_items its c \<longrightarrow>
              map_option discount (map_of (computeTotals_with rnd its' tr Percentage dv) c) =
              map_option discount (map_of (computeTotals_with rnd its tr Percentage dv) c))"
proof
  show "\<forall>(c, t) \<in> set (computeTotals_with rnd its tr Percentage dv).
            discount t = rnd (subtotal t * rnd (Num r / Num 100))"
    using assms by (auto simp: computeTotals_with_fields category_discount_def)
next
  have mem: "c \<in> category ` set xs \<longleftrightarrow> category_items xs c \<noteq> []" for xs
    by (auto simp: category_items_def filter_empty_conv)
  show "category_items its' c = category_items its c \<longrightarrow>
              map_option discount (map_of (computeTotals_with rnd its' tr Percentage dv) c) =
              map_option discount (map_of (computeTotals_with rnd its tr Percentage dv) c)"
    by (simp add: map_of_computeTotals_with map_of_subtotals mem finish_category_def
        category_discount_def Let_def)
qed

theorem percentage_discount_witness:
  "or_zero (parseFloat_with double (ascii ''50'')) = Num 50 \<and>
   or_zero (parseFloat_with double []) = Num 0 \<and>
   computeTotals_with double [sofa, tea, lamp, cake] (ascii ''50'') Percentage (ascii ''50'') =
     [(ascii ''A'', \<lparr>subtotal = Num 80, discount = Num 40, tax = Num 20, total' = Num 60\<rparr>),
      (ascii ''Drinks'',
         \<lparr>subtotal = Num 4, discount = Num 2, tax = Num (3 / 4), total' = Num (11 / 4)\<rparr>),
      (ascii ''B'', \<lparr>subtotal = Num 20, discount = Num 10, tax = Num 0, total' = Num 10\<rparr>)] \<and>
   Num 40 = double (Num 80 * double (Num 50 / Num 100)) \<and>
   Num 2 = double (Num 4 * double (Num 50 / Num 100)) \<and>
   Num 10 = double (Num 20 * double (Num 50 / Num 100)) \<and>
   computeTotals_with double [tea, cake] (ascii ''50'') Percentage [] =
     [(ascii ''Drinks'',
         \<lparr>subtotal = Num 4, discount = Num 0, tax = Num (3 / 2), total' = Num (11 / 2)\<rparr>)] \<and>
   Num 0 = double (Num 4 * double (Num 0 / Num 100)) \<and>
   category_items [tea, cake] (ascii ''Drinks'') =
     category_items [sofa, tea, lamp, cake] (ascii ''Drinks'') \<and>
   map_option discount
     (map_of (computeTotals_with double [tea, cake] (ascii ''50'') Percentage (ascii ''50''))
        (ascii ''Drinks'')) =
   map_option discount
     (map_of (computeTotals_with double [sofa, tea, lamp, cake] (ascii ''50'') Percentage (ascii ''50''))
        (ascii ''Drinks''))"
proof -
  have p: "or_zero (parseFloat_with double (ascii ''50'')) = Num 50"
    "or_zero (parseFloat_with double []) = Num 0"
    by (simp_all add: eval_defs)
  have out: "computeTotals_with double [sofa, tea, lamp, cake] (ascii ''50'') Percentage (ascii ''50'') =
     [(ascii ''A'', \<lparr>subtotal = Num 80, discount = Num 40, tax = Num 20, total' = Num 60\<rparr>),
      (ascii ''Drinks'',
         \<lparr>subtotal = Num 4, discount = Num 2, tax = Num (3 / 4), total' = Num (11 / 4)\<rparr>),
      (ascii ''B'', \<lparr>subtotal = Num 20, discount = Num 10, tax = Num 0, total' = Num 10\<rparr>)]"
    by (simp add: eval_defs double_samples)
  have out0: "computeTotals_with double [tea, cake] (ascii ''50'') Percentage [] =
     [(ascii ''Drinks'',
         \<lparr>subtotal = Num 4, discount = Num 0, tax = Num (3 / 2), total' = Num (11 / 2)\<rparr>)]"
    by (simp add: eval_defs double_samples)
  have same: "category_items [tea, cake] (ascii ''Drinks'') =
     category_items [sofa, tea, lamp, cake] (ascii ''Drinks'')"
    by (simp add: category_items_def eval_defs)
  note inst = percentage_discount [OF p(1), of "[sofa, tea, lamp, cake]" "ascii ''50''"
      "[tea, cake]" "ascii ''Drinks''"]
  note inst0 = percentage_discount [OF p(2), of "[tea, cake]" "ascii ''50''"]
  from inst have
    "Num 40 = double (Num 80 * double (Num 50 / Num 100))"
    "Num 2 = double (Num 4 * double (Num 50 / Num 100))"
    "Num 10 = double (Num 20 * double (Num 50 / Num 100))"
    unfolding out by simp_all
  moreover from inst0 have "Num 0 = double (Num 4 * double (Num 0 / Num 100))"
    unfolding out0 by simp
  moreover from inst same have "map_option discount
     (map_of (computeTotals_with double [tea, cake] (ascii ''50'') Percentage (ascii ''50''))
        (ascii ''Drinks'')) =
   map_option discount
     (map_of (computeTotals_with double [sofa, tea, lamp, cake] (ascii ''50'') Percentage (ascii ''50''))
        (ascii ''Drinks''))"
    by blast
  ultimately show ?thesis
    using p out out0 same by blast
qed

text \<open>
  C7. For a tax rate that parses to the number \<open>r\<close>, the tax of a category is the sum, over
  the taxable items of that category, of
  \<open>(price - price / categorySubtotal * categoryDiscount) * r / 100\<close>; the other items add
  nothing. A category with no taxable item has tax 0, whatever the tax rate string and the
  discount are. This holds for the program as it runs (\<open>rnd = double\<close>: the sum is taken from
  the left and every operation is rounded) and in exact arithmetic (\<open>rnd = exact\<close>, where the
  sum is \<open>sum_list\<close>).
\<close>

theorem tax_over_taxable_items:
  assumes "(c, t) \<in> set (computeTotals_with rnd its tr dt dv)"
  shows "(parseFloat_with rnd tr = Num r \<longrightarrow>
            tax t = sum_left rnd
                      (map (\<lambda>i. rnd (rnd (Num (price i)
                                             - rnd (rnd (Num (price i) / subtotal t) * discount t))
                                        * rnd (Num r / Num 100)))
                         (filter taxable (category_items its c))))
         \<and> (filter taxable (category_items its c) = [] \<longrightarrow> tax t = Num 0)"
  using computeTotals_with_fields(3) [OF assms]
  by (simp add: category_tax_sum_left)

theorem tax_over_taxable_items_witness:
  "(ascii ''Drinks'',
      \<lparr>subtotal = Num 4, discount = Num 2, tax = Num (3 / 4), total' = Num (11 / 4)\<rparr>)
     \<in> set (computeTotals_with double [tea, cake] (ascii ''50'') Percentage (ascii ''50'')) \<and>
   parseFloat_with double (ascii ''50'') = Num 50 \<and>
   filter taxable (category_items [tea, cake] (ascii ''Drinks'')) = [tea] \<and>
   Num (3 / 4) =
     sum_left double
       (map (\<lambda>i. double (double (Num (price i) - double (double (Num (price i) / Num 4) * Num 2))
                           * double (Num 50 / Num 100)))
          (filter taxable (category_items [tea, cake] (ascii ''Drinks'')))) \<and>
   (ascii ''B'', \<lparr>subtotal = Num 20, discount = Num 10, tax = Num 0, total' = Num 10\<rparr>)
     \<in> set (computeTotals_with double [sofa, lamp] (ascii ''50'') Percentage (ascii ''50'')) \<and>
   filter taxable (category_items [sofa, lamp] (ascii ''B'')) = []"
proof -
  have h: "(ascii ''Drinks'',
      \<lparr>subtotal = Num 4, discount = Num 2, tax = Num (3 / 4), total' = Num (11 / 4)\<rparr>)
     \<in> set (computeTotals_with double [tea, cake] (ascii ''50'') Percentage (ascii ''50''))"
    by (simp add: eval_defs double_samples)
  have h': "(ascii ''B'', \<lparr>subtotal = Num 20, discount = Num 10, tax = Num 0, total' = Num 10\<rparr>)
     \<in> set (computeTotals_with double [sofa, lamp] (ascii ''50'') Percentage (ascii ''50''))"
    by (simp add: eval_defs double_samples)
  have p: "parseFloat_with double (ascii ''50'') = Num 50"
    by (simp add: eval_defs)
  have f: "filter taxable (category_items [tea, cake] (ascii ''Drinks'')) = [tea]"
    "filter taxable (category_items [sofa, lamp] (ascii ''B'')) = []"
    by (simp_all add: category_items_def eval_defs)
  from tax_over_taxable_items [OF h, of 50] tax_over_taxable_items [OF h', of 50] h h' p f
  show ?thesis
    by simp
qed

text \<open>
  Three runs of the program that bound what can be said of the signs of its results and of
  NaN. A discount of exactly 100 percent leaves a negative tax and total behind, by rounding:
  \<open>7 / 25 * 25\<close> is computed as a double above 7. Two prices whose sum overflows make the
  subtotal infinite and the other fields NaN.
\<close>

lemma full_discount_negative_tax:
  "computeTotals [pen, desk] (ascii ''10'') Percentage (ascii ''100'') =
     [(ascii ''Office'',
       \<lparr>subtotal = Num 25, discount = Num 25,
          tax = Num (- (3602879701896397 / 2 ^ 105)),
          total' = Num (- (3602879701896397 / 2 ^ 105))\<rparr>)]"
  by (simp add: eval_defs double_samples_inexact)

lemma overflow_gives_NaN:
  "computeTotals [ingot, ingot] (ascii ''10'') Percentage (ascii ''0'') =
     [(ascii ''Gold'', \<lparr>subtotal = PosInf, discount = NaN, tax = NaN, total' = NaN\<rparr>)]"
  by (simp add: eval_defs double_largest_power [simplified] double_overflow)




text \<open>
  C10. Claim: when every category that holds a taxable item has a positive subtotal and the tax
  rate and the discount value parse to numbers, the result holds no non-numeric value. The
  division by \<open>totalSubtotal\<close> is as unguarded as the one by the category's subtotal: the
  single blank row (price 0, not taxable) with a flat discount meets the precondition, and
  its discount and total are NaN.
\<close>

theorem no_fallback_counterexample:
  "parseFloat (ascii ''10'') = Num 10 \<and> parseFloat (ascii ''0'') = Num 0 \<and>
   filter taxable [EMPTY_ITEM] = [] \<and>
   computeTotals [EMPTY_ITEM] (ascii ''10'') Amount (ascii ''0'') =
     [([], \<lparr>subtotal = Num 0, discount = NaN, tax = Num 0, total' = NaN\<rparr>)] \<and>
   \<not> numeric NaN"
  by (simp add: eval_defs numeric_def)

text \<open>
  C10, amended. The division of a taxable item's price by its category's subtotal has no zero
  guard. Let all prices be doubles that are at least 0, let the tax rate parse to a number
  between -100 and 100 and the discount value to a number that is at least 0 (an empty or
  non-numeric discount value counts as 0), and let the total subtotal be other than 0 when
  the discount is a flat amount. Then for every category whose subtotal and discount have not
  overflowed to Infinity and whose subtotal is other than 0 if it holds a taxable item, no
  field is NaN. For the single item of price 0 with taxable = true, the tax of its category
  is NaN.
\<close>

theorem tax_division_guard:
  "((\<forall>i\<in>set its. 0 \<le> price i \<and> is_double (price i)) \<and>
    parseFloat tr = Num r \<and> \<bar>r\<bar> \<le> 100 \<and> or_zero (parseFloat dv) = Num d \<and> 0 \<le> d \<and>
    (c, t) \<in> set (computeTotals its tr dt dv) \<and>
    subtotal t \<noteq> PosInf \<and> discount t \<noteq> PosInf \<and>
    (filter taxable (category_items its c) \<noteq> [] \<longrightarrow> subtotal t \<noteq> Num 0) \<and>
    (dt = Amount \<longrightarrow> totalSubtotal double (subtotals double its) \<noteq> Num 0) \<longrightarrow>
    numeric (subtotal t) \<and> numeric (discount t) \<and> numeric (tax t) \<and> numeric (total' t))
   \<and> computeTotals [EMPTY_ITEM\<lparr>taxable := True\<rparr>] (ascii ''10'') Percentage (ascii ''0'') =
       [([], \<lparr>subtotal = Num 0, discount = Num 0, tax = NaN, total' = NaN\<rparr>)]"
proof (intro conjI impI)
  assume h: "(\<forall>i\<in>set its. 0 \<le> price i \<and> is_double (price i)) \<and>
    parseFloat tr = Num r \<and> \<bar>r\<bar> \<le> 100 \<and> or_zero (parseFloat dv) = Num d \<and> 0 \<le> d \<and>
    (c, t) \<in> set (computeTotals its tr dt dv) \<and>
    subtotal t \<noteq> PosInf \<and> discount t \<noteq> PosInf \<and>
    (filter taxable (category_items its c) \<noteq> [] \<longrightarrow> subtotal t \<noteq> Num 0) \<and>
    (dt = Amount \<longrightarrow> totalSubtotal double (subtotals double its) \<noteq> Num 0)"
  then have "subtotal t \<noteq> NaN \<and> discount t \<noteq> NaN \<and> tax t \<noteq> NaN \<and> total' t \<noteq> NaN"
    by (intro conjI fields_numeric [of its tr r dv d c t dt]) simp_all
  then show "numeric (subtotal t)" "numeric (discount t)" "numeric (tax t)" "numeric (total' t)"
    by (simp_all add: numeric_def)
next
  show "computeTotals [EMPTY_ITEM\<lparr>taxable := True\<rparr>] (ascii ''10'') Percentage (ascii ''0'') =
       [([], \<lparr>subtotal = Num 0, discount = Num 0, tax = NaN, total' = NaN\<rparr>)]"
    by (simp add: eval_defs)
qed

theorem tax_division_guard_witness:
  "0 \<le> price tea \<and> is_double (price tea) \<and> 0 \<le> price cake \<and> is_double (price cake) \<and>
   parseFloat (ascii ''50'') = Num 50 \<and> \<bar>50::rat\<bar> \<le> 100 \<and>
   or_zero (parseFloat (ascii ''2'')) = Num 2 \<and>
   totalSubtotal double (subtotals double [tea, cake]) = Num 4 \<and>
   filter taxable (category_items [tea, cake] (ascii ''Drinks'')) = [tea] \<and>
   (ascii ''Drinks'',
      \<lparr>subtotal = Num 4, discount = Num 2, tax = Num (3 / 4), total' = Num (11 / 4)\<rparr>)
     \<in> set (computeTotals [tea, cake] (ascii ''50'') Amount (ascii ''2'')) \<and>
   numeric (Num 4) \<and> numeric (Num 2) \<and> numeric (Num (3 / 4)) \<and> numeric (Num (11 / 4))"
proof -
  have prices: "\<forall>i\<in>set [tea, cake]. 0 \<le> price i \<and> is_double (price i)"
    by (simp add: eval_defs)
  have p: "parseFloat (ascii ''50'') = Num 50" "or_zero (parseFloat (ascii ''2'')) = Num 2"
    by (simp_all add: eval_defs)
  have T: "totalSubtotal double (subtotals double [tea, cake]) = Num 4"
    by (simp add: eval_defs)
  have f: "filter taxable (category_items [tea, cake] (ascii ''Drinks'')) = [tea]"
    by (simp add: category_items_def eval_defs)
  have mem: "(ascii ''Drinks'',
      \<lparr>subtotal = Num 4, discount = Num 2, tax = Num (3 / 4), total' = Num (11 / 4)\<rparr>)
     \<in> set (computeTotals [tea, cake] (ascii ''50'') Amount (ascii ''2''))"
    by (simp add: eval_defs double_samples)
  from tax_division_guard [of "[tea, cake]" "ascii ''50''" 50 "ascii ''2''" 2 "ascii ''Drinks''"
      "\<lparr>subtotal = Num 4, discount = Num 2, tax = Num (3 / 4), total' = Num (11 / 4)\<rparr>" Amount]
    prices p T mem
  have "numeric (Num 4) \<and> numeric (Num 2) \<and> numeric (Num (3 / 4)) \<and> numeric (Num (11 / 4))"
    by simp
  with prices p T f mem show ?thesis
    by simp
qed

section \<open>The state codec: auxiliary facts\<close>

lemma b64_encode_sextets:
  "b64_encode bytes = map b64_char (sextets bytes) @ replicate (padding bytes) 0x3D"
  by (induction bytes rule: sextets.induct) simp_all

lemma padding_le: "padding bytes \<le> 2"
  by (induction bytes rule: padding.induct) simp_all

lemma sextets_bound: "\<forall>b\<in>set bytes. b < 256 \<Longrightarrow> \<forall>v\<in>set (sextets bytes). v < 64"
  by (induction bytes rule: sextets.induct) auto

lemma b64_decode_sextets: "\<forall>b\<in>set bytes. b < 256 \<Longrightarrow> b64_decode (sextets bytes) = bytes"
  by (induction bytes rule: sextets.induct) auto

lemma length_sextets: "length (sextets bytes) mod 4 \<noteq> 1"
  by (induction bytes rule: sextets.induct) auto

lemma unat_of_nat_jschar: "m < 65536 \<Longrightarrow> unat (of_nat m :: jschar) = m"
  by (simp add: unat_of_nat)

lemma b64_val_char:
  assumes "n < 64"
  shows "b64_val (b64_char n) = Some n"
proof -
  consider "n < 26" | "26 \<le> n" "n < 52" | "52 \<le> n" "n < 62" | "n = 62" | "n = 63"
    using assms by linarith
  then show ?thesis
  proof cases
    case 1
    then have "unat (of_nat (65 + n) :: jschar) = 65 + n"
      by (intro unat_of_nat_jschar) simp
    with 1 show ?thesis
      by (simp add: b64_val_def b64_char_def word_le_nat_alt)
  next
    case 2
    then have "unat (of_nat (97 + (n - 26)) :: jschar) = 97 + (n - 26)"
      by (intro unat_of_nat_jschar) simp
    with 2 show ?thesis
      by (simp add: b64_val_def b64_char_def word_le_nat_alt)
  next
    case 3
    then have "unat (of_nat (48 + (n - 52)) :: jschar) = 48 + (n - 52)"
      by (intro unat_of_nat_jschar) simp
    with 3 show ?thesis
      by (auto simp: b64_val_def b64_char_def word_le_nat_alt)
  next
    case 4
    then show ?thesis
      by (simp add: b64_val_def b64_char_def)
  next
    case 5
    then show ?thesis
      by (simp add: b64_val_def b64_char_def)
  qed
qed

lemma b64_char_plain: "n < 64 \<Longrightarrow> b64_char n \<noteq> 0x3D \<and> \<not> is_ascii_white (b64_char n)"
  using b64_val_char [of n] by (auto simp: b64_val_def is_ascii_white_def split: if_splits)

lemma those_map_Some: "\<forall>x\<in>set xs. f x = Some (g x) \<Longrightarrow> those (map f xs) = Some (map g xs)"
  by (induction xs) auto

lemma strip_padding_encoded:
  assumes "\<forall>c\<in>set xs. c \<noteq> 0x3D" and "k \<le> 2" and "length (xs @ replicate k 0x3D) mod 4 = 0"
  shows "strip_padding (xs @ replicate k 0x3D) = xs"
proof -
  have last_xs: "xs \<noteq> [] \<Longrightarrow> last xs \<noteq> 0x3D"
    using assms(1) last_in_set by blast
  consider "k = 0" | "k = 1" | "k = 2"
    using assms(2) by linarith
  then show ?thesis
  proof cases
    case 1
    with last_xs show ?thesis
      by (auto simp: strip_padding_def)
  next
    case 2
    with assms(3) have "xs \<noteq> []"
      by auto
    with 2 assms(3) last_xs show ?thesis
      by (simp add: strip_padding_def)
  next
    case 3
    then have r: "xs @ replicate k (0x3D :: jschar) = (xs @ [0x3D]) @ [0x3D]"
      by (simp add: numeral_2_eq_2)
    show ?thesis
      unfolding r strip_padding_def using assms(3) [unfolded r] by (simp del: append_assoc)
  qed
qed

lemma atob_b64_encode:
  assumes "\<forall>b\<in>set bytes. b < 256"
  shows "atob (b64_encode bytes) = Inr (map of_nat bytes)"
proof -
  let ?xs = "map b64_char (sextets bytes)"
  have v: "\<forall>v\<in>set (sextets bytes). v < 64"
    using assms by (rule sextets_bound)
  then have plain: "\<forall>c\<in>set ?xs. c \<noteq> 0x3D \<and> \<not> is_ascii_white c"
    by (auto simp: b64_char_plain)
  have "filter (\<lambda>c. \<not> is_ascii_white c) (b64_encode bytes) = b64_encode bytes"
    unfolding b64_encode_sextets using plain by (auto simp: is_ascii_white_def filter_id_conv)
  moreover have "length (b64_encode bytes) mod 4 = 0"
    by (induction bytes rule: b64_encode.induct) auto
  then have "strip_padding (b64_encode bytes) = ?xs"
    unfolding b64_encode_sextets using plain by (intro strip_padding_encoded) (auto simp: padding_le)
  moreover have "those (map b64_val ?xs) = Some (sextets bytes)"
    using those_map_Some [of "sextets bytes" "b64_val \<circ> b64_char" id] v
    by (simp add: b64_val_char comp_def)
  moreover have "length ?xs mod 4 \<noteq> 1"
    using length_sextets [of bytes] by simp
  ultimately show ?thesis
    using assms by (simp add: atob_def b64_decode_sextets)
qed

lemma atob_btoa:
  assumes "btoa s = Inr e"
  shows "atob e = Inr s"
proof -
  from assms have ok: "\<not> list_ex (\<lambda>c. 0xFF < c) s" and e: "e = b64_encode (map unat s)"
    by (auto simp: btoa_def split: if_splits)
  from ok have "\<forall>b\<in>set (map unat s). b < 256"
    by (auto simp: list_ex_iff word_less_nat_alt not_less word_le_nat_alt)
  then have "atob e = Inr (map of_nat (map unat s))"
    unfolding e by (rule atob_b64_encode)
  then show ?thesis
    by (simp add: comp_def)
qed

lemma hex_val_digit:
  assumes "n < 16"
  shows "hex_val (hex_digit n) = Some n"
proof (cases "n < 10")
  case True
  then have "unat (of_nat (48 + n) :: jschar) = 48 + n"
    by (intro unat_of_nat_jschar) simp
  with True show ?thesis
    by (auto simp: hex_val_def hex_digit_def word_le_nat_alt)
next
  case False
  with assms have "unat (of_nat (87 + n) :: jschar) = 87 + n"
    by (intro unat_of_nat_jschar) simp
  with False assms show ?thesis
    by (auto simp: hex_val_def hex_digit_def word_le_nat_alt)
qed

lemma hex_digits_value:
  fixes c :: jschar
  shows "of_nat (unat c div 4096 * 4096 + unat c div 256 mod 16 * 256 + unat c div 16 mod 16 * 16
           + unat c mod 16) = c"
proof -
  define x where "x = unat c"
  have a: "x mod 256 = 16 * (x div 16 mod 16) + x mod 16"
    using mod_mult2_eq [of x 16 16] by simp
  have b: "x div 4096 = x div 256 div 16"
    using div_mult2_eq [of x 256 16] by simp
  have c: "x div 256 = x div 256 div 16 * 16 + x div 256 mod 16"
    by simp
  have d: "x = x div 256 * 256 + x mod 256"
    by simp
  have "x div 4096 * 4096 + x div 256 mod 16 * 256 + x div 16 mod 16 * 16 + x mod 16 = x"
    using a b c d by linarith
  then show ?thesis by (simp add: x_def)
qed

lemma parse_chars_unicode_escape:
  "parse_chars acc (unicode_escape c @ rest) = parse_chars (acc @ [c]) rest"
proof -
  have "unat c < 65536"
    using unsigned_less [of c, where 'a = nat] by simp
  then have "unat c div 4096 < 16"
    by simp
  then have "hex4 (hex_digit (unat c div 4096)) (hex_digit (unat c div 256 mod 16))
      (hex_digit (unat c div 16 mod 16)) (hex_digit (unat c mod 16)) = Some c"
    by (simp add: hex4_def hex_val_digit hex_digits_value del: of_nat_add of_nat_mult)
  then show ?thesis
    by (simp add: unicode_escape_def)
qed

lemma parse_chars_escape_char:
  "parse_chars acc (escape_char c @ rest) = parse_chars (acc @ [c]) rest"
proof (cases "c < 0x20")
  case True
  then show ?thesis
    by (simp add: escape_char_def parse_chars_unicode_escape unescape_def)
next
  case False
  then show ?thesis
    by (simp add: escape_char_def unescape_def)
qed

lemma parse_chars_surrogate:
  "is_high_surrogate c \<or> is_low_surrogate c \<Longrightarrow>
   parse_chars acc (c # rest) = parse_chars (acc @ [c]) rest"
  by (auto simp: is_high_surrogate_def is_low_surrogate_def word_le_nat_alt word_less_nat_alt)

lemma parse_chars_quote_chars:
  "parse_chars acc (quote_chars s @ 0x22 # rest) = Some (acc @ s, rest)"
proof (induction s arbitrary: acc rule: quote_chars.induct)
  case 1
  show ?case by simp
next
  case (2 c)
  show ?case
    by (simp add: parse_chars_unicode_escape parse_chars_escape_char del: parse_chars.simps)
      simp
next
  case (3 c d cs)
  show ?case
  proof (cases "is_high_surrogate c \<and> is_low_surrogate d")
    case True
    with 3(1) [of "acc @ [c, d]"] show ?thesis
      by (simp add: parse_chars_surrogate del: parse_chars.simps)
  next
    case False
    show ?thesis
    proof (cases "is_high_surrogate c \<or> is_low_surrogate c")
      case True
      with False have "quote_chars (c # d # cs) = unicode_escape c @ quote_chars (d # cs)"
        by auto
      with False True 3(2) [of "acc @ [c]"] show ?thesis
        by (simp add: parse_chars_unicode_escape del: parse_chars.simps quote_chars.simps)
    next
      case no: False
      with False have "quote_chars (c # d # cs) = escape_char c @ quote_chars (d # cs)"
        by auto
      with False no 3(3) [of "acc @ [c]"] show ?thesis
        by (simp add: parse_chars_escape_char del: parse_chars.simps quote_chars.simps)
    qed
  qed
qed

lemma parse_value_quote:
  "parse_value (quote s @ rest) = Some (JStr s, rest)"
  using parse_chars_quote_chars [of "[]" s rest]
  by (simp add: quote_def is_json_white_def)

lemma digit_not_special:
  "is_digit c \<Longrightarrow> \<not> is_json_white c \<and> c \<noteq> 0x5B \<and> c \<noteq> 0x7B \<and> c \<noteq> 0x22 \<and> c \<noteq> 0x5D \<and> c \<noteq> 0x7D"
  by (auto simp: is_digit_def is_json_white_def word_le_nat_alt)

lemma reads_back_JNull: "reads_back num JNull"
  by (simp add: reads_back_def starts_value_def ascii_def is_json_white_def is_digit_def)

lemma reads_back_JBool: "reads_back num (JBool b)"
  by (simp add: reads_back_def starts_value_def ascii_def is_json_white_def is_digit_def)

lemma reads_back_JStr: "reads_back num (JStr s)"
  by (simp add: reads_back_def starts_value_def parse_value_quote) (simp add: quote_def is_json_white_def)

lemma reads_back_JNum:
  assumes "writes_number num x"
  shows "reads_back num (JNum x)"
proof -
  from assms obtain c cs where n: "num x = c # cs" and c: "c = 0x2D \<or> is_digit c"
    by (auto simp: writes_number_def split: list.splits)
  from c have plain: "\<not> is_json_white c \<and> c \<noteq> 0x5B \<and> c \<noteq> 0x7B \<and> c \<noteq> 0x22 \<and> c \<noteq> 0x5D \<and> c \<noteq> 0x7D"
    using digit_not_special [of c] by (auto simp: is_json_white_def)
  have "parse_value (num x @ rest) = Some (JNum x, rest)" if "delimited rest" for rest
  proof -
    from that assms have "parse_number (num x @ rest) = Some (x, rest)"
      by (simp add: writes_number_def)
    then have "parse_number (c # cs @ rest) = Some (x, rest)"
      by (simp add: n)
    with plain c show ?thesis
      by (simp add: n)
  qed
  with plain show ?thesis
    by (simp add: reads_back_def starts_value_def n)
qed

lemma join_Cons: "xs \<noteq> [] \<Longrightarrow> join (x # xs) = x @ 0x2C # join xs"
  by (cases xs) simp_all

lemma delimited_simps [simp]:
  "delimited []" "delimited (0x2C # cs)" "delimited (0x5D # cs)" "delimited (0x7D # cs)"
  by (simp_all add: delimited_def)

declare parse_elements.simps [simp del]

lemma parse_elements_step:
  assumes "reads_back num v" and "delimited tail"
  shows "parse_elements acc (JSON_stringify num v @ tail) = parse_array_tail (acc @ [v]) tail"
proof -
  from assms have "parse_value (JSON_stringify num v @ tail) = Some (v, tail)"
    and "JSON_stringify num v \<noteq> []"
    by (auto simp: reads_back_def starts_value_def)
  then show ?thesis
    by (simp add: parse_elements.simps)
qed

lemma parse_elements_join:
  assumes "\<forall>v\<in>set vs. reads_back num v" and "vs \<noteq> []"
  shows "parse_elements acc (join (map (JSON_stringify num) vs) @ 0x5D # rest) =
         Some (JArr (acc @ vs), rest)"
  using assms
proof (induction vs arbitrary: acc)
  case Nil
  then show ?case by simp
next
  case (Cons v vs)
  from Cons.prems have rb: "reads_back num v"
    by simp
  show ?case
  proof (cases "vs = []")
    case True
    with parse_elements_step [OF rb, of "0x5D # rest" acc] show ?thesis
      by (simp add: is_json_white_def)
  next
    case False
    let ?more = "join (map (JSON_stringify num) vs) @ 0x5D # rest"
    from Cons.IH [of "acc @ [v]"] Cons.prems False
    have "parse_elements (acc @ [v]) ?more = Some (JArr (acc @ v # vs), rest)"
      by simp
    with False parse_elements_step [OF rb, of "0x2C # ?more" acc] show ?thesis
      by (simp add: join_Cons is_json_white_def)
  qed
qed

lemma starts_value_append:
  "starts_value s \<Longrightarrow> starts_value (s @ t)"
  by (cases s) (simp_all add: starts_value_def)

lemma starts_value_join:
  "xs \<noteq> [] \<Longrightarrow> starts_value (hd xs) \<Longrightarrow> starts_value (join xs @ t)"
  by (cases xs rule: join.cases) (simp_all add: starts_value_append)

lemma parse_array_start:
  "starts_value s \<Longrightarrow> parse_array s = parse_elements [] s"
  by (cases s) (simp_all add: starts_value_def)

lemma reads_back_JArr:
  assumes "\<forall>v\<in>set vs. reads_back num v"
  shows "reads_back num (JArr vs)"
proof (cases "vs = []")
  case True
  then show ?thesis
    by (simp add: reads_back_def starts_value_def is_json_white_def is_digit_def)
next
  case False
  have "parse_value (JSON_stringify num (JArr vs) @ rest) = Some (JArr vs, rest)" for rest
  proof -
    let ?body = "join (map (JSON_stringify num) vs) @ 0x5D # rest"
    from False assms have "starts_value (hd (map (JSON_stringify num) vs))"
      by (cases vs) (auto simp: reads_back_def)
    with False have "starts_value ?body"
      by (intro starts_value_join) simp_all
    then have "parse_array ?body = parse_elements [] ?body"
      by (rule parse_array_start)
    with parse_elements_join [OF assms False, of "[]" rest] show ?thesis
      by (simp add: is_json_white_def)
  qed
  then show ?thesis
    by (simp add: reads_back_def starts_value_def is_json_white_def)
qed

lemma update_fresh: "k \<notin> fst ` set al \<Longrightarrow> AList.update k v al = al @ [(k, v)]"
  by (induction al) auto

lemma skip_colon_colon: "skip_colon (0x3A # cs) = Some cs"
  by (simp add: skip_colon_def is_json_white_def)

lemma parse_member_step:
  assumes "reads_back num v" and "delimited tail"
  shows "parse_member acc (quote k @ 0x3A # JSON_stringify num v @ tail) =
         parse_object_tail (AList.update k v acc) tail"
proof -
  let ?s = "JSON_stringify num v"
  from assms have v: "parse_value (?s @ tail) = Some (v, tail)" and ne: "?s \<noteq> []"
    by (auto simp: reads_back_def starts_value_def)
  have k: "parse_chars [] (quote_chars k @ 0x22 # 0x3A # ?s @ tail) = Some (k, 0x3A # ?s @ tail)"
    using parse_chars_quote_chars [of "[]" k "0x3A # ?s @ tail"] by simp
  show ?thesis
    unfolding quote_def using ne
    by (simp add: k v skip_colon_colon is_json_white_def del: parse_value.simps)
qed

lemma parse_member_join:
  assumes "\<forall>m\<in>set ms. reads_back num (snd m)" and "ms \<noteq> []"
      and "distinct (map fst (acc @ ms))"
  shows "parse_member acc
           (join (map (\<lambda>(k, v). quote k @ 0x3A # JSON_stringify num v) ms) @ 0x7D # rest) =
         Some (JObj (acc @ ms), rest)"
  using assms
proof (induction ms arbitrary: acc)
  case Nil
  then show ?case by simp
next
  case (Cons m ms)
  obtain k v where m: "m = (k, v)"
    by (cases m)
  from Cons.prems m have rb: "reads_back num v" and fresh: "k \<notin> fst ` set acc"
    by auto
  note step = parse_member_step [OF rb, of _ acc k, unfolded update_fresh [OF fresh]]
  show ?case
  proof (cases "ms = []")
    case True
    with step [of "0x7D # rest"] show ?thesis
      by (simp add: m is_json_white_def)
  next
    case False
    let ?more = "join (map (\<lambda>(k, v). quote k @ 0x3A # JSON_stringify num v) ms) @ 0x7D # rest"
    from Cons.IH [of "acc @ [m]"] Cons.prems False
    have "parse_member (acc @ [m]) ?more = Some (JObj (acc @ m # ms), rest)"
      by simp
    with False step [of "0x2C # ?more"] show ?thesis
      by (simp add: m join_Cons is_json_white_def)
  qed
qed

lemma reads_back_JObj:
  assumes "\<forall>m\<in>set ms. reads_back num (snd m)" and "distinct (map fst ms)"
  shows "reads_back num (JObj ms)"
proof (cases "ms = []")
  case True
  then show ?thesis
    by (simp add: reads_back_def starts_value_def is_json_white_def is_digit_def)
next
  case False
  have "parse_value (JSON_stringify num (JObj ms) @ rest) = Some (JObj ms, rest)" for rest
  proof -
    let ?body = "join (map (\<lambda>(k, v). quote k @ 0x3A # JSON_stringify num v) ms) @ 0x7D # rest"
    from False obtain m ms' where ms: "ms = m # ms'"
      by (cases ms) auto
    obtain k v where m: "m = (k, v)"
      by (cases m)
    have "\<exists>cs. ?body = 0x22 # cs"
      by (cases ms') (simp_all add: ms m quote_def)
    then obtain cs where "?body = 0x22 # cs" ..
    then have "parse_object ?body = parse_member [] ?body"
      by (simp add: is_json_white_def)
    with parse_member_join [OF assms(1) False, of "[]" rest] assms(2) show ?thesis
      by (simp add: is_json_white_def)
  qed
  then show ?thesis
    by (simp add: reads_back_def starts_value_def is_json_white_def)
qed

lemma printable_reads_back: "printable num v \<Longrightarrow> reads_back num v"
proof (induction v)
  case JNull
  show ?case by (rule reads_back_JNull)
next
  case (JBool b)
  show ?case by (rule reads_back_JBool)
next
  case (JNum x)
  then show ?case by (simp add: reads_back_JNum)
next
  case (JStr s)
  show ?case by (rule reads_back_JStr)
next
  case (JArr vs)
  then show ?case
    by (intro reads_back_JArr) (auto simp: list_all_iff)
next
  case (JObj ms)
  then have "\<forall>m\<in>set ms. reads_back num (snd m)"
    by (auto simp: list_all_iff snds.simps)
  with JObj.prems show ?case
    by (intro reads_back_JObj) simp_all
qed

lemma JSON_parse_stringify:
  "printable num v \<Longrightarrow> JSON_parse (JSON_stringify num v) = Inr v"
  using printable_reads_back [of num v]
  by (auto simp: reads_back_def JSON_parse_def dest: spec [of _ "[]"])

lemma as_item_item_json: "as_item (item_json i) = Some i"
  by (simp add: as_item_def item_json_def ascii_def)

lemma as_state_state_json: "as_state (state_json s) = Some s"
proof -
  have "those (map as_item (map item_json is)) = Some is" for "is"
    by (induction "is") (simp_all add: as_item_item_json)
  moreover have "as_discountType (case discountType s of Percentage \<Rightarrow> ascii ''percentage''
      | Amount \<Rightarrow> ascii ''amount'') = Some (discountType s)"
    by (cases "discountType s") (simp_all add: as_discountType_def ascii_def)
  ultimately show ?thesis
    by (simp add: as_state_def state_json_def ascii_def)
qed

lemma printable_state_json:
  assumes "\<forall>i\<in>set (items s). writes_number num (price i)"
  shows "printable num (state_json s)"
  using assms by (simp add: state_json_def item_json_def ascii_def list_all_iff)

lemma decodeState_btoa:
  assumes "btoa (JSON_stringify num v) = Inr e" and "printable num v"
  shows "decodeState e = Inr v"
  using atob_btoa [OF assms(1)] JSON_parse_stringify [OF assms(2)]
  by (simp add: decodeState_def)

lemma decodeState_encodeState:
  assumes "encodeState num s = Inr e"
      and "\<forall>i\<in>set (items s). writes_number num (price i)"
  shows "decodeState e = Inr (state_json s) \<and> as_state (state_json s) = Some s"
  using decodeState_btoa [OF assms(1) [unfolded encodeState_def] printable_state_json [OF assms(2)]]
  by (simp add: as_state_state_json)

lemma encodeState_throws_iff:
  "encodeState num s = Inl InvalidCharacterError \<longleftrightarrow>
     (\<exists>c\<in>set (JSON_stringify num (state_json s)). 0xFF < c)"
  by (simp add: encodeState_def btoa_def list_ex_iff)

lemma latin1_append [simp]: "latin1 (s @ t) \<longleftrightarrow> latin1 s \<and> latin1 t"
  by (simp add: latin1_def)

lemma latin1_Cons [simp]: "latin1 (c # s) \<longleftrightarrow> c \<le> 0xFF \<and> latin1 s"
  by (simp add: latin1_def)

lemma latin1_Nil [simp]: "latin1 []"
  by (simp add: latin1_def)

lemma hex_digit_latin1: "n < 16 \<Longrightarrow> hex_digit n \<le> 0xFF"
proof -
  assume "n < 16"
  then have "unat (of_nat (48 + n) :: jschar) = 48 + n" "unat (of_nat (87 + n) :: jschar) = 87 + n"
    by (intro unat_of_nat_jschar, simp)+
  with \<open>n < 16\<close> show ?thesis
    by (auto simp: hex_digit_def word_le_nat_alt)
qed

lemma latin1_escape_char: "c \<le> 0xFF \<Longrightarrow> latin1 (escape_char c)"
proof -
  assume c: "c \<le> 0xFF"
  then have "unat c < 256"
    by (simp add: word_le_nat_alt)
  then have "unat c div 4096 < 16" "unat c div 256 mod 16 < 16" "unat c div 16 mod 16 < 16"
    "unat c mod 16 < 16"
    by simp_all
  then have "latin1 (unicode_escape c)"
    by (simp add: unicode_escape_def hex_digit_latin1)
  with c show ?thesis
    by (simp add: escape_char_def)
qed

lemma latin1_no_surrogate: "c \<le> 0xFF \<Longrightarrow> \<not> is_high_surrogate c \<and> \<not> is_low_surrogate c"
  by (auto simp: is_high_surrogate_def is_low_surrogate_def word_le_nat_alt)

lemma latin1_quote_chars: "latin1 s \<Longrightarrow> latin1 (quote_chars s)"
  by (induction s rule: quote_chars.induct) (simp_all add: latin1_escape_char latin1_no_surrogate)

lemma latin1_quote: "latin1 s \<Longrightarrow> latin1 (quote s)"
  by (simp add: quote_def latin1_quote_chars)

lemma latin1_join: "\<forall>x\<in>set xs. latin1 x \<Longrightarrow> latin1 (join xs)"
  by (induction xs rule: join.induct) simp_all

lemma latin1_stringify: "latin1_value num v \<Longrightarrow> latin1 (JSON_stringify num v)"
proof (induction v)
  case (JArr vs)
  then show ?case
    by (auto simp: list_all_iff intro!: latin1_join)
next
  case (JObj ms)
  then have "\<forall>m\<in>set ms. latin1 (fst m) \<and> latin1 (JSON_stringify num (snd m))"
    by (auto simp: list_all_iff snds.simps)
  then have "\<forall>x\<in>set (map (\<lambda>(k, v). quote k @ 0x3A # JSON_stringify num v) ms). latin1 x"
    by (auto simp: latin1_quote)
  then have "latin1 (join (map (\<lambda>(k, v). quote k @ 0x3A # JSON_stringify num v) ms))"
    by (rule latin1_join)
  then show ?case
    by simp
qed (simp_all add: latin1_quote ascii_def)

lemma btoa_latin1: "latin1 s \<Longrightarrow> \<exists>e. btoa s = Inr e"
  by (auto simp: btoa_def latin1_def list_ex_iff list_all_iff)

lemma encodeState_returns:
  assumes "\<forall>i\<in>set (items s). latin1 (name i) \<and> latin1 (category i) \<and> latin1 (num (price i))"
      and "latin1 (taxRate s)" and "latin1 (discountValue s)"
  shows "\<exists>e. encodeState num s = Inr e"
proof -
  have "latin1_value num (state_json s)"
    using assms
    by (cases "discountType s") (simp_all add: state_json_def item_json_def ascii_def list_all_iff)
  then show ?thesis
    unfolding encodeState_def by (intro btoa_latin1 latin1_stringify)
qed

lemma digit_char: "d < 10 \<Longrightarrow> is_digit (of_nat (48 + d)) \<and> unat (of_nat (48 + d) :: jschar) = 48 + d"
proof -
  assume "d < 10"
  then have "unat (of_nat (48 + d) :: jschar) = 48 + d"
    by (intro unat_of_nat_jschar) simp
  with \<open>d < 10\<close> show ?thesis
    by (auto simp: is_digit_def word_le_nat_alt)
qed

lemma digits_val_snoc: "digits_val (ds @ [c]) = 10 * digits_val ds + (unat c - 48)"
  by (simp add: digits_val_def)

lemma nat_digits_digits: "list_all is_digit (nat_digits f n)"
  by (induction f n rule: nat_digits.induct) (simp_all add: digit_char del: of_nat_add)

lemma nat_digits_value: "n < 10 ^ f \<Longrightarrow> digits_val (nat_digits f n) = n"
proof (induction f n rule: nat_digits.induct)
  case (1 n)
  then show ?case by (simp add: digits_val_def)
next
  case (2 f n)
  show ?case
  proof (cases "n < 10")
    case True
    then show ?thesis
      using digit_char [of n] by (simp add: digits_val_def del: of_nat_add)
  next
    case False
    from 2(2) have "n div 10 < 10 ^ f"
      by (simp add: less_mult_imp_div_less mult.commute)
    with 2(1) False have "digits_val (nat_digits f (n div 10)) = n div 10"
      by simp
    with False show ?thesis
      using digit_char [of "n mod 10"] by (simp add: digits_val_snoc del: of_nat_add)
  qed
qed

lemma nat_digits_head:
  "0 < f \<Longrightarrow> n < 10 ^ f \<Longrightarrow>
   \<exists>c cs. nat_digits f n = c # cs \<and> is_digit c \<and> (c = 0x30 \<longrightarrow> cs = [])"
proof (induction f n rule: nat_digits.induct)
  case (1 n)
  then show ?case by simp
next
  case (2 f n)
  show ?case
  proof (cases "n < 10")
    case True
    then show ?thesis
      using digit_char [of n] by (simp del: of_nat_add)
  next
    case False
    with 2(3) have f: "0 < f"
      by (cases f) auto
    from 2(3) have "n div 10 < 10 ^ f"
      by (simp add: less_mult_imp_div_less mult.commute)
    with 2(1) False f obtain c cs where
      h: "nat_digits f (n div 10) = c # cs" "is_digit c" "c = 0x30 \<longrightarrow> cs = []"
      by blast
    have "c \<noteq> 0x30"
    proof
      assume "c = 0x30"
      with h have "nat_digits f (n div 10) = [0x30]"
        by simp
      then have "digits_val (nat_digits f (n div 10)) = 0"
        by (simp add: digits_val_def)
      with \<open>n div 10 < 10 ^ f\<close> have "n div 10 = 0"
        by (simp add: nat_digits_value)
      with False show False
        by simp
    qed
    with False h show ?thesis
      by simp
  qed
qed

lemma not_digit_delimited:
  "delimited rest \<Longrightarrow> takeWhile is_digit rest = [] \<and> dropWhile is_digit rest = rest \<and>
     read_frac rest = Some ([], rest) \<and> read_exp rest = Some (0, rest)"
  by (cases rest) (auto simp: delimited_def is_digit_def read_frac_def read_exp_def)

lemma parse_number_digits:
  assumes "ds = c # cs" and "list_all is_digit ds" and "c = 0x30 \<longrightarrow> cs = []" and "delimited rest"
  shows "parse_number (ds @ rest) = Some (rat_of_nat (digits_val ds), rest)"
proof -
  from assms(1,2) have c: "is_digit c" "c \<noteq> 0x2D"
    by (auto simp: is_digit_def)
  note r = not_digit_delimited [OF assms(4)]
  have "read_int (ds @ rest) = Some (ds, rest)"
  proof (cases "c = 0x30")
    case True
    with assms c show ?thesis
      by (simp add: read_int_def)
  next
    case False
    from assms(2) have "takeWhile is_digit (ds @ rest) = ds @ takeWhile is_digit rest"
      "dropWhile is_digit (ds @ rest) = dropWhile is_digit rest"
      by (simp_all add: list_all_iff takeWhile_append2 dropWhile_append2)
    with False c r show ?thesis
      by (simp add: read_int_def assms(1))
  qed
  with c r show ?thesis
    by (simp add: parse_number_def assms(1) scale10_def digits_val_def)
qed

lemma writes_number_nat_toString:
  assumes "n < 10 ^ 21"
  shows "writes_number nat_toString (of_nat n)"
proof -
  from nat_digits_head [of 21 n] assms obtain c cs where
    h: "nat_digits 21 n = c # cs" "is_digit c" "c = 0x30 \<longrightarrow> cs = []"
    by auto
  have "parse_number (nat_digits 21 n @ rest) = Some (rat_of_nat n, rest)" if "delimited rest" for rest
    using parse_number_digits [OF h(1) nat_digits_digits h(3) that] assms
    by (simp add: nat_digits_value)
  with h show ?thesis
    by (simp add: writes_number_def nat_toString_def)
qed

lemma parse_chars_shorter:
  "parse_chars acc cs = Some (s, rest) \<Longrightarrow> length rest < length cs"
proof (induction cs arbitrary: acc rule: length_induct)
  case (1 cs)
  then have IH: "\<And>ys acc. length ys < length cs \<Longrightarrow> parse_chars acc ys = Some (s, rest) \<Longrightarrow>
      length rest < length ys"
    by blast
  from "1.prems" obtain c cs' where cs: "cs = c # cs'"
    by (cases cs) auto
  from "1.prems" show ?case
    unfolding cs
    by (auto split: if_splits list.splits option.splits dest!: IH [unfolded cs, rotated])
qed

lemma read_sign_shorter: "read_sign cs = (neg, ds) \<Longrightarrow> length ds \<le> length cs"
  by (cases cs) (auto split: if_splits)

lemma read_int_shorter: "read_int cs = Some (ip, rest) \<Longrightarrow> length rest < length cs"
  by (cases cs) (auto simp: read_int_def is_digit_def split: if_splits
      intro: le_less_trans [OF length_dropWhile_le])

lemma read_frac_shorter: "read_frac cs = Some (fp, rest) \<Longrightarrow> length rest \<le> length cs"
  by (cases cs) (auto simp: read_frac_def split: if_splits
      intro: le_trans [OF length_dropWhile_le])

lemma read_exp_shorter: "read_exp cs = Some (e, rest) \<Longrightarrow> length rest \<le> length cs"
proof (cases cs)
  case Nil
  then show "read_exp cs = Some (e, rest) \<Longrightarrow> ?thesis"
    by (simp add: read_exp_def)
next
  case (Cons c r)
  obtain neg ds where s: "read_sign r = (neg, ds)"
    by (cases "read_sign r")
  then have "length (dropWhile is_digit ds) \<le> length r"
    using read_sign_shorter [OF s] length_dropWhile_le [of is_digit ds] by linarith
  then show "read_exp cs = Some (e, rest) \<Longrightarrow> ?thesis"
    by (auto simp: read_exp_def Cons s split: if_splits)
qed

lemma parse_number_shorter:
  assumes "parse_number cs = Some (x, rest)"
  shows "length rest < length cs"
proof -
  let ?cs = "if cs \<noteq> [] \<and> hd cs = 0x2D then tl cs else cs"
  from assms obtain ip r1 fp r2 e where
    "read_int ?cs = Some (ip, r1)" "read_frac r1 = Some (fp, r2)" "read_exp r2 = Some (e, rest)"
    by (auto simp: parse_number_def Let_def split: option.splits)
  then have "length r1 < length ?cs" "length r2 \<le> length r1" "length rest \<le> length r2"
    by (auto dest: read_int_shorter read_frac_shorter read_exp_shorter)
  moreover have "length ?cs \<le> length cs"
    by simp
  ultimately show ?thesis
    by linarith
qed

lemma skip_colon_shorter: "skip_colon cs = Some rest \<Longrightarrow> length rest < length cs"
proof -
  assume "skip_colon cs = Some rest"
  then obtain c where "dropWhile is_json_white cs = c # rest"
    by (auto simp: skip_colon_def split: list.splits if_splits)
  then have "length (dropWhile is_json_white cs) = Suc (length rest)"
    by simp
  with length_dropWhile_le [of is_json_white cs] show ?thesis
    by linarith
qed

lemma parse_shorter_all:
  "\<forall>v rest. parse_value cs1 = Some (v, rest) \<longrightarrow> length rest < length cs1"
  "\<forall>v rest. parse_array cs2 = Some (v, rest) \<longrightarrow> length rest < length cs2"
  "\<forall>v rest. parse_elements a3 cs3 = Some (v, rest) \<longrightarrow> length rest < length cs3"
  "\<forall>v rest. parse_array_tail a4 cs4 = Some (v, rest) \<longrightarrow> length rest < length cs4"
  "\<forall>v rest. parse_object cs5 = Some (v, rest) \<longrightarrow> length rest < length cs5"
  "\<forall>v rest. parse_member a6 cs6 = Some (v, rest) \<longrightarrow> length rest < length cs6"
  "\<forall>v rest. parse_object_tail a7 cs7 = Some (v, rest) \<longrightarrow> length rest < length cs7"
proof (induction cs1 and cs2 and a3 cs3 and a4 cs4 and cs5 and a6 cs6 and a7 cs7
    rule: parse_value_parse_array_parse_elements_parse_array_tail_parse_object_parse_member_parse_object_tail.induct)
  case 1
  show ?case by simp
next
  case (2 c cs)
  show ?case
  proof (intro allI impI)
    fix v rest
    assume p: "parse_value (c # cs) = Some (v, rest)"
    consider (ws) "is_json_white c"
      | (arr) "\<not> is_json_white c" "c = 0x5B"
      | (obj) "\<not> is_json_white c" "c \<noteq> 0x5B" "c = 0x7B"
      | (str) "\<not> is_json_white c" "c \<noteq> 0x5B" "c \<noteq> 0x7B" "c = 0x22"
      | (num) "\<not> is_json_white c" "c \<noteq> 0x5B" "c \<noteq> 0x7B" "c \<noteq> 0x22" "c = 0x2D \<or> is_digit c"
      | (lit) "\<not> is_json_white c" "c \<noteq> 0x5B" "c \<noteq> 0x7B" "c \<noteq> 0x22" "\<not> (c = 0x2D \<or> is_digit c)"
      by blast
    then show "length rest < length (c # cs)"
    proof cases
      case ws
      with p 2(1) show ?thesis by fastforce
    next
      case arr
      with p 2(2) show ?thesis by fastforce
    next
      case obj
      with p 2(3) show ?thesis by fastforce
    next
      case str
      with p obtain s where "parse_chars [] cs = Some (s, rest)"
        by auto
      then show ?thesis
        using parse_chars_shorter by fastforce
    next
      case num
      with p obtain x where "parse_number (c # cs) = Some (x, rest)"
        by auto
      then show ?thesis
        by (rule parse_number_shorter)
    next
      case lit
      with p show ?thesis
        by (auto split: if_splits)
    qed
  qed
next
  case 3
  show ?case by simp
next
  case (4 c cs)
  then show ?case
    by (fastforce split: if_splits)
next
  case (5 acc cs)
  show ?case
  proof (intro allI impI)
    fix v rest
    assume p: "parse_elements acc cs = Some (v, rest)"
    then obtain x y where xy: "parse_value cs = Some (x, y)" "length y < length cs"
      and t: "parse_array_tail (acc @ [x]) y = Some (v, rest)"
      by (auto simp: parse_elements.simps split: option.splits if_splits)
    from 5(2) [OF xy(1) refl xy(2)] t have "length rest < length y"
      by blast
    with xy(2) show "length rest < length cs"
      by linarith
  qed
next
  case (6 acc)
  show ?case by simp
next
  case (7 acc c cs)
  then show ?case
    by (fastforce split: if_splits)
next
  case 8
  show ?case by simp
next
  case (9 c cs)
  then show ?case
    by (fastforce split: if_splits)
next
  case (10 acc)
  show ?case by simp
next
  case (11 acc c cs)
  show ?case
  proof (intro allI impI)
    fix v rest
    assume p: "parse_member acc (c # cs) = Some (v, rest)"
    show "length rest < length (c # cs)"
    proof (cases "is_json_white c")
      case True
      with p 11(1) show ?thesis by fastforce
    next
      case False
      with p have c: "c = 0x22"
        by (auto split: if_splits)
      with False p obtain k r r' x y where
        k: "parse_chars [] cs = Some (k, r)" and r': "skip_colon r = Some r'"
        and le: "length r' \<le> length cs"
        and xy: "parse_value r' = Some (x, y)" "length y < length r'"
        and t: "parse_object_tail (AList.update k x acc) y = Some (v, rest)"
        by (auto split: option.splits if_splits)
      from 11(3) [OF False c k refl r' le xy(1) refl xy(2)] t have "length rest < length y"
        by blast
      with xy(2) le show ?thesis
        by simp
    qed
  qed
next
  case (12 acc)
  show ?case by simp
next
  case (13 acc c cs)
  then show ?case
    by (fastforce split: if_splits)
qed

text \<open>The comparisons of lengths in the value reader never fail.\<close>

lemma parse_elements_unguarded:
  "parse_elements acc cs =
     (case parse_value cs of
        None \<Rightarrow> None
      | Some (v, rest) \<Rightarrow> parse_array_tail (acc @ [v]) rest)"
  using parse_shorter_all(1) [of cs]
  by (auto simp: parse_elements.simps split: option.splits)

lemma parse_member_unguarded:
  "parse_member acc (c # cs) =
     (if is_json_white c then parse_member acc cs
      else if c = 0x22 then
        (case parse_chars [] cs of
           None \<Rightarrow> None
         | Some (k, r) \<Rightarrow>
             (case skip_colon r of
                None \<Rightarrow> None
              | Some r' \<Rightarrow>
                  (case parse_value r' of
                     None \<Rightarrow> None
                   | Some (v, rest) \<Rightarrow> parse_object_tail (AList.update k v acc) rest)))
      else None)"
proof -
  have "length r' \<le> length cs" if "parse_chars [] cs = Some (k, r)" "skip_colon r = Some r'" for k r r'
    using parse_chars_shorter [OF that(1)] skip_colon_shorter [OF that(2)] by linarith
  moreover have "length rest < length r'" if "parse_value r' = Some (v, rest)" for r' v rest
    using parse_shorter_all(1) [of r'] that by blast
  ultimately show ?thesis
    by (auto split: option.splits)
qed

lemma set_strip_padding:
  assumes "c \<in> set d" and "c \<noteq> 0x3D"
  shows "c \<in> set (strip_padding d)"
proof -
  have keep: "c \<in> set (butlast xs)" if "c \<in> set xs" "xs \<noteq> []" "last xs = 0x3D" for xs
    using that assms(2) by (cases xs rule: rev_cases) auto
  have "strip_padding d = d \<or> strip_padding d = butlast d \<and> d \<noteq> [] \<and> last d = 0x3D \<or>
      strip_padding d = butlast (butlast d) \<and> d \<noteq> [] \<and> last d = 0x3D \<and>
        butlast d \<noteq> [] \<and> last (butlast d) = 0x3D"
    by (simp add: strip_padding_def)
  with assms(1) show ?thesis
    using keep [of d] keep [of "butlast d"] by metis
qed

lemma those_None: "x \<in> set xs \<Longrightarrow> f x = None \<Longrightarrow> those (map f xs) = None"
  by (induction xs) (auto split: option.splits)

lemma atob_corrupted:
  assumes "c \<in> set encoded" and "b64_val c = None" and "c \<noteq> 0x3D" and "\<not> is_ascii_white c"
  shows "atob encoded = Inl InvalidCharacterError"
proof -
  from assms(1,4) have "c \<in> set (filter (\<lambda>c. \<not> is_ascii_white c) encoded)"
    by simp
  then have "c \<in> set (strip_padding (filter (\<lambda>c. \<not> is_ascii_white c) encoded))"
    using assms(3) by (rule set_strip_padding)
  then have "those (map b64_val (strip_padding (filter (\<lambda>c. \<not> is_ascii_white c) encoded))) = None"
    using assms(2) by (rule those_None)
  then show ?thesis
    by (simp add: atob_def Let_def)
qed

section \<open>The state codec: the properties claimed\<close>

lemmas codec_defs = decodeState_def atob_def strip_padding_def is_ascii_white_def b64_val_def
  JSON_parse_def is_json_white_def ascii_def as_state_def

text \<open>
  The round trip on a state that \<open>encodeState\<close> accepts: a state with a Latin-1 name, an empty
  category, an empty tax rate and an empty discount value is encoded, and decoded to itself.
\<close>

lemma round_trip_cafe_state:
  "\<exists>e. encodeState nat_toString cafe_state = Inr e \<and>
       decodeState e = Inr (state_json cafe_state) \<and>
       as_state (state_json cafe_state) = Some cafe_state"
proof -
  have num: "\<forall>i\<in>set (items cafe_state). writes_number nat_toString (price i)"
    using writes_number_nat_toString [of 4] by (simp add: cafe_state_def)
  have "latin1 (nat_toString 4)"
    unfolding nat_toString_def latin1_def using nat_digits_digits [of 21 "nat \<lfloor>4::rat\<rfloor>"]
    by (auto simp: list_all_iff is_digit_def word_le_nat_alt)
  then have "\<exists>e. encodeState nat_toString cafe_state = Inr e"
    by (intro encodeState_returns) (simp_all add: cafe_state_def ascii_def)
  with decodeState_encodeState [OF _ num] show ?thesis
    by blast
qed

text \<open>
  C1. Claim: \<open>decodeState (encodeState s) = s\<close> for every state, also with Unicode characters
  in names and categories. \<open>JSON.stringify\<close> copies a character such as the euro sign as it
  is, and \<open>btoa\<close> throws on every code unit above \<open>0xFF\<close>: for the state with one item named
  with the euro sign, \<open>encodeState\<close> throws InvalidCharacterError, however numbers are written,
  and there is nothing to decode.
\<close>

theorem encodeState_throws_on_euro:
  "encodeState num euro_state = Inl InvalidCharacterError"
  by (simp add: encodeState_def euro_state_def state_json_def item_json_def btoa_def quote_def
      ascii_def is_high_surrogate_def is_low_surrogate_def escape_char_def)

text \<open>
  What \<open>decodeState\<close> does on every input: it returns and does not throw. It returns null
  when \<open>atob\<close> throws (corrupted base64, for one whenever the input holds a character that is
  neither of the base64 alphabet, nor \<open>=\<close>, nor white space) and when \<open>JSON.parse\<close> throws
  (the decoded text is not JSON); otherwise it returns the value that \<open>JSON.parse\<close> read.
\<close>

lemma decodeState_total:
  "(\<exists>v. decodeState encoded = Inr v) \<and>
   (atob encoded = Inl e \<longrightarrow> decodeState encoded = Inr JNull) \<and>
   (atob encoded = Inr text \<and> JSON_parse text = Inl e \<longrightarrow> decodeState encoded = Inr JNull) \<and>
   (atob encoded = Inr text \<and> JSON_parse text = Inr v \<longrightarrow> decodeState encoded = Inr v) \<and>
   ((\<exists>c\<in>set encoded. b64_val c = None \<and> c \<noteq> 0x3D \<and> \<not> is_ascii_white c) \<longrightarrow>
      decodeState encoded = Inr JNull)"
proof (intro conjI impI)
  show "\<exists>v. decodeState encoded = Inr v"
    by (simp add: decodeState_def split: sum.splits)
next
  assume "atob encoded = Inl e"
  then show "decodeState encoded = Inr JNull"
    by (simp add: decodeState_def)
next
  assume "atob encoded = Inr text \<and> JSON_parse text = Inl e"
  then show "decodeState encoded = Inr JNull"
    by (simp add: decodeState_def)
next
  assume "atob encoded = Inr text \<and> JSON_parse text = Inr v"
  then show "decodeState encoded = Inr v"
    by (simp add: decodeState_def)
next
  assume "\<exists>c\<in>set encoded. b64_val c = None \<and> c \<noteq> 0x3D \<and> \<not> is_ascii_white c"
  then have "atob encoded = Inl InvalidCharacterError"
    using atob_corrupted by blast
  then show "decodeState encoded = Inr JNull"
    by (simp add: decodeState_def)
qed

lemma decodeState_examples:
  "decodeState (ascii ''e30%'') = Inr JNull \<and>
   atob (ascii ''%%%'') = Inl InvalidCharacterError \<and> decodeState (ascii ''%%%'') = Inr JNull \<and>
   atob (ascii ''e3'') = Inr [0x7B] \<and> JSON_parse [0x7B] = Inl SyntaxError \<and>
   decodeState (ascii ''e3'') = Inr JNull \<and>
   atob (ascii ''NDI='') = Inr (ascii ''42'') \<and> JSON_parse (ascii ''42'') = Inr (JNum 42) \<and>
   decodeState (ascii ''NDI='') = Inr (JNum 42)"
proof -
  have a0: "0x25 \<in> set (ascii ''e30%'')" "b64_val 0x25 = None" "\<not> is_ascii_white 0x25"
    by (simp_all add: ascii_def b64_val_def is_ascii_white_def)
  have a1: "atob (ascii ''%%%'') = Inl InvalidCharacterError"
    by (simp add: codec_defs)
  have a2: "atob (ascii ''e3'') = Inr [0x7B]" "JSON_parse [0x7B] = Inl SyntaxError"
    by (simp_all add: codec_defs)
  have a3: "atob (ascii ''NDI='') = Inr (ascii ''42'')" "JSON_parse (ascii ''42'') = Inr (JNum 42)"
    by (simp_all add: codec_defs parse_number_def read_int_def read_frac_def read_exp_def
        is_digit_def digits_val_def scale10_def)
  from decodeState_total [of "ascii ''e30%''"] a0
  have d0: "decodeState (ascii ''e30%'') = Inr JNull"
    by fastforce
  from decodeState_total [of "ascii ''%%%''" InvalidCharacterError] a1
  have d1: "decodeState (ascii ''%%%'') = Inr JNull"
    by blast
  from decodeState_total [of "ascii ''e3''" SyntaxError "[0x7B]"] a2
  have d2: "decodeState (ascii ''e3'') = Inr JNull"
    by blast
  from decodeState_total [of "ascii ''NDI=''" _ "ascii ''42''" "JNum 42"] a3
  have d3: "decodeState (ascii ''NDI='') = Inr (JNum 42)"
    by blast
  from a1 a2 a3 d0 d1 d2 d3 show ?thesis
    by blast
qed

text \<open>
  C9. Claim: \<open>decodeState\<close> returns null for every malformed input, also for text of invalid
  structure, and a well-formed state otherwise. The source declares the result as
  \<open>ReceiptState | null\<close> and returns null from its \<open>catch\<close>, but it never looks at what
  \<open>JSON.parse\<close> read: \<open>e30=\<close> is the base64 form of \<open>{}\<close>, and \<open>decodeState\<close> returns that
  empty object, which is not null and is no state (it has no \<open>items\<close>, no \<open>taxRate\<close>, no
  \<open>discountType\<close> and no \<open>discountValue\<close>).
\<close>

theorem decodeState_returns_non_state:
  "decodeState (ascii ''e30='') = Inr (JObj []) \<and> JObj [] \<noteq> JNull \<and> as_state (JObj []) = None"
  by (simp add: codec_defs)

end
